theory Spec2Isabelle
  imports Main "HOL-Library.Word"
begin

section \<open>The free store, element types and errors\<close>

text \<open>
  The two headers \<^verbatim>\<open>array_ptr.h\<close> and \<^verbatim>\<open>simple_vector.h\<close> are embedded over an
  explicit free store. \<^verbatim>\<open>size_t\<close> is a 64-bit unsigned word and \<^verbatim>\<open>int\<close> a 32-bit one
  (LP64). A raw pointer \<^verbatim>\<open>Type*\<close> held by an \<^verbatim>\<open>ArrayPtr\<close> is either \<^verbatim>\<open>nullptr\<close>
  (\<open>None\<close>) or the address of a block obtained from \<^verbatim>\<open>new Type[n]\<close>; an iterator into a
  vector is the offset from \<^verbatim>\<open>begin()\<close>. A member function takes the store and the
  object and returns both, or an error: a thrown exception, a failed \<^verbatim>\<open>assert\<close>, or
  an access outside a live block (undefined behaviour in C++).
  A field \<^verbatim>\<open>name_\<close> of the source is called \<open>name_m\<close>: an Isabelle name cannot end
  with an underscore.
\<close>

type_synonym size_t = "64 word"
type_synonym addr = nat

datatype error = out_of_range | bad_alloc | assertion_failed | undefined_behaviour

definition bind :: "error + 'a \<Rightarrow> ('a \<Rightarrow> error + 'b) \<Rightarrow> error + 'b" where
  "bind m f = (case m of Inl e \<Rightarrow> Inl e | Inr x \<Rightarrow> f x)"

text \<open>
  What the containers use of the template parameter \<^verbatim>\<open>Type\<close>: the value-initialised
  object \<^verbatim>\<open>Type()\<close>, the content of cell \<open>i\<close> of a fresh \<^verbatim>\<open>new Type[n]\<close> (the default
  constructor's result for a class type, indeterminate for a scalar type), and the state
  in which \<^verbatim>\<open>std::move\<close> leaves the object it moved from (the same value for a
  trivially copyable type). Assignment and \<^verbatim>\<open>==\<close> of \<^verbatim>\<open>Type\<close> are those of values.
\<close>

record 'a type_traits =
  value_init :: 'a
  default_init :: "nat \<Rightarrow> 'a"
  moved_from :: "'a \<Rightarrow> 'a"

text \<open>
  The store: the live blocks by address, the next address \<^verbatim>\<open>new[]\<close> hands out, and the
  largest element count the allocator grants; a larger request throws
  \<^verbatim>\<open>std::bad_alloc\<close>.
\<close>

record 'a heap =
  blocks :: "addr \<Rightarrow> 'a list option"
  next_addr :: addr
  alloc_limit :: nat

definition new_array :: "'a type_traits \<Rightarrow> 'a heap \<Rightarrow> nat \<Rightarrow> error + ('a heap \<times> addr)" where
  "new_array T h n =
     (if alloc_limit h < n then Inl bad_alloc
      else Inr (h\<lparr>blocks := (blocks h)(next_addr h \<mapsto> map (default_init T) [0..<n]),
                  next_addr := Suc (next_addr h)\<rparr>, next_addr h))"

definition delete_array :: "'a heap \<Rightarrow> addr option \<Rightarrow> error + 'a heap" where
  "delete_array h p =
     (case p of
        None \<Rightarrow> Inr h
      | Some a \<Rightarrow>
          (case blocks h a of
             None \<Rightarrow> Inl undefined_behaviour
           | Some xs \<Rightarrow> Inr (h\<lparr>blocks := (blocks h)(a := None)\<rparr>)))"

text \<open>Reading and writing \<^verbatim>\<open>p[i]\<close>, that is \<^verbatim>\<open>*(p + i)\<close>.\<close>

definition load :: "'a heap \<Rightarrow> addr option \<Rightarrow> nat \<Rightarrow> error + 'a" where
  "load h p i =
     (case p of
        None \<Rightarrow> Inl undefined_behaviour
      | Some a \<Rightarrow>
          (case blocks h a of
             None \<Rightarrow> Inl undefined_behaviour
           | Some xs \<Rightarrow> if i < length xs then Inr (xs ! i) else Inl undefined_behaviour))"

definition store :: "'a heap \<Rightarrow> addr option \<Rightarrow> nat \<Rightarrow> 'a \<Rightarrow> error + 'a heap" where
  "store h p i x =
     (case p of
        None \<Rightarrow> Inl undefined_behaviour
      | Some a \<Rightarrow>
          (case blocks h a of
             None \<Rightarrow> Inl undefined_behaviour
           | Some xs \<Rightarrow>
               if i < length xs then Inr (h\<lparr>blocks := (blocks h)(a \<mapsto> xs[i := x])\<rparr>)
               else Inl undefined_behaviour))"

subsection \<open>The algorithms of the standard library the containers call\<close>

text \<open>
  Each takes its ranges as a base pointer, the offset of the first cell and the number
  of cells. \<open>fill\<close> is \<^verbatim>\<open>std::fill\<close> (and the loop \<^verbatim>\<open>data_[i] = Type()\<close>),
  \<open>copy_list\<close> is \<^verbatim>\<open>std::copy\<close> out of an initializer list, \<open>copy\<close> is \<^verbatim>\<open>std::copy\<close>,
  \<open>copy_backward\<close> is \<^verbatim>\<open>std::copy_backward\<close> (last cell first), \<open>move\<close> is the
  algorithm \<^verbatim>\<open>std::move\<close> (and the loop \<^verbatim>\<open>new_data[i] = std::move(data_[i])\<close>), and
  \<open>equal\<close> is the three-iterator \<^verbatim>\<open>std::equal\<close>.
\<close>

fun fill :: "'a heap \<Rightarrow> addr option \<Rightarrow> nat \<Rightarrow> nat \<Rightarrow> 'a \<Rightarrow> error + 'a heap" where
  "fill h p i 0 x = Inr h"
| "fill h p i (Suc n) x = bind (store h p i x) (\<lambda>h'. fill h' p (Suc i) n x)"

fun copy_list :: "'a heap \<Rightarrow> 'a list \<Rightarrow> addr option \<Rightarrow> nat \<Rightarrow> error + 'a heap" where
  "copy_list h [] d di = Inr h"
| "copy_list h (x # xs) d di = bind (store h d di x) (\<lambda>h'. copy_list h' xs d (Suc di))"

fun copy :: "'a heap \<Rightarrow> addr option \<Rightarrow> nat \<Rightarrow> nat \<Rightarrow> addr option \<Rightarrow> nat \<Rightarrow> error + 'a heap" where
  "copy h s si 0 d di = Inr h"
| "copy h s si (Suc n) d di =
     bind (load h s si) (\<lambda>x.
     bind (store h d di x) (\<lambda>h'.
     copy h' s (Suc si) n d (Suc di)))"

fun copy_backward :: "'a heap \<Rightarrow> addr option \<Rightarrow> nat \<Rightarrow> nat \<Rightarrow> addr option \<Rightarrow> nat \<Rightarrow> error + 'a heap" where
  "copy_backward h s si 0 d di = Inr h"
| "copy_backward h s si (Suc n) d di =
     bind (load h s (si + n)) (\<lambda>x.
     bind (store h d (di + n) x) (\<lambda>h'.
     copy_backward h' s si n d di))"

fun move :: "'a type_traits \<Rightarrow> 'a heap \<Rightarrow> addr option \<Rightarrow> nat \<Rightarrow> nat \<Rightarrow> addr option \<Rightarrow> nat \<Rightarrow> error + 'a heap" where
  "move T h s si 0 d di = Inr h"
| "move T h s si (Suc n) d di =
     bind (load h s si) (\<lambda>x.
     bind (store h d di x) (\<lambda>h1.
     bind (store h1 s si (moved_from T x)) (\<lambda>h2.
     move T h2 s (Suc si) n d (Suc di))))"

fun equal :: "'a heap \<Rightarrow> addr option \<Rightarrow> nat \<Rightarrow> nat \<Rightarrow> addr option \<Rightarrow> nat \<Rightarrow> error + bool" where
  "equal h s si 0 d di = Inr True"
| "equal h s si (Suc n) d di =
     bind (load h s si) (\<lambda>x.
     bind (load h d di) (\<lambda>y.
     if x = y then equal h s (Suc si) n d (Suc di) else Inr False))"

section \<open>ArrayPtr\<close>

record ArrayPtr =
  raw_ptr_m :: "addr option"

text \<open>\<^verbatim>\<open>explicit ArrayPtr(size_t size)\<close>\<close>

definition ArrayPtr_ctor :: "'a type_traits \<Rightarrow> 'a heap \<Rightarrow> size_t \<Rightarrow> error + ('a heap \<times> ArrayPtr)" where
  "ArrayPtr_ctor T h sz =
     (if sz = 0 then Inr (h, \<lparr>raw_ptr_m = None\<rparr>)
      else bind (new_array T h (unat sz)) (\<lambda>(h', a). Inr (h', \<lparr>raw_ptr_m = Some a\<rparr>)))"

text \<open>\<^verbatim>\<open>~ArrayPtr()\<close>\<close>

definition ArrayPtr_dtor :: "'a heap \<Rightarrow> ArrayPtr \<Rightarrow> error + 'a heap" where
  "ArrayPtr_dtor h p = delete_array h (raw_ptr_m p)"

text \<open>
  \<^verbatim>\<open>ArrayPtr(ArrayPtr&& other)\<close>: the constructed object and \<open>other\<close> afterwards;
  \<^verbatim>\<open>Get\<close>; \<^verbatim>\<open>swap\<close>: the object and \<open>other\<close> afterwards.
\<close>

definition ArrayPtr_move_ctor :: "ArrayPtr \<Rightarrow> ArrayPtr \<times> ArrayPtr" where
  "ArrayPtr_move_ctor other = (\<lparr>raw_ptr_m = raw_ptr_m other\<rparr>, other\<lparr>raw_ptr_m := None\<rparr>)"

definition Get :: "ArrayPtr \<Rightarrow> addr option" where
  "Get p = raw_ptr_m p"

definition ArrayPtr_swap :: "ArrayPtr \<Rightarrow> ArrayPtr \<Rightarrow> ArrayPtr \<times> ArrayPtr" where
  "ArrayPtr_swap p other =
     (let temp = raw_ptr_m p in (p\<lparr>raw_ptr_m := raw_ptr_m other\<rparr>, other\<lparr>raw_ptr_m := temp\<rparr>))"

text \<open>
  \<^verbatim>\<open>ArrayPtr& operator=(ArrayPtr&& other)\<close> compares the addresses of the two objects, so
  it is stated over the objects by address: \<open>this\<close> and \<open>other\<close> name \<^verbatim>\<open>ArrayPtr\<close>
  objects in \<open>objs\<close>. The block \<open>this\<close> held before is not deleted.
\<close>

definition ArrayPtr_move_assign :: "(nat \<Rightarrow> ArrayPtr) \<Rightarrow> nat \<Rightarrow> nat \<Rightarrow> (nat \<Rightarrow> ArrayPtr)" where
  "ArrayPtr_move_assign objs this other =
     (if this \<noteq> other
      then (let p = raw_ptr_m (objs other);
                objs1 = objs(other := (objs other)\<lparr>raw_ptr_m := None\<rparr>)
            in objs1(this := (objs1 this)\<lparr>raw_ptr_m := p\<rparr>))
      else objs)"

section \<open>SimpleVector\<close>

record ReserveProxyObject =
  capacity_to_reserve :: size_t

text \<open>The free function \<^verbatim>\<open>Reserve(size_t)\<close> that makes the proxy.\<close>

definition Reserve_proxy :: "size_t \<Rightarrow> ReserveProxyObject" where
  "Reserve_proxy c = \<lparr>capacity_to_reserve = c\<rparr>"

record SimpleVector =
  size_m :: size_t
  capacity_m :: size_t
  data_m :: ArrayPtr

text \<open>
  \<^verbatim>\<open>SimpleVector() noexcept = default\<close>, with the default member initialisers; then the
  constructors from a size, from a size and a value, and from an initializer list.
\<close>

definition SimpleVector_default :: SimpleVector where
  "SimpleVector_default = \<lparr>size_m = 0, capacity_m = 0, data_m = \<lparr>raw_ptr_m = None\<rparr>\<rparr>"

definition SimpleVector_ctor_size :: "'a type_traits \<Rightarrow> 'a heap \<Rightarrow> size_t \<Rightarrow> error + ('a heap \<times> SimpleVector)" where
  "SimpleVector_ctor_size T h sz =
     bind (ArrayPtr_ctor T h sz) (\<lambda>(h1, d).
     bind (fill h1 (Get d) 0 (unat sz) (value_init T)) (\<lambda>h2.
     Inr (h2, \<lparr>size_m = sz, capacity_m = sz, data_m = d\<rparr>)))"

definition SimpleVector_ctor_value :: "'a type_traits \<Rightarrow> 'a heap \<Rightarrow> size_t \<Rightarrow> 'a \<Rightarrow> error + ('a heap \<times> SimpleVector)" where
  "SimpleVector_ctor_value T h sz val =
     bind (ArrayPtr_ctor T h sz) (\<lambda>(h1, d).
     bind (fill h1 (Get d) 0 (unat sz) val) (\<lambda>h2.
     Inr (h2, \<lparr>size_m = sz, capacity_m = sz, data_m = d\<rparr>)))"

definition SimpleVector_ctor_init :: "'a type_traits \<Rightarrow> 'a heap \<Rightarrow> 'a list \<Rightarrow> error + ('a heap \<times> SimpleVector)" where
  "SimpleVector_ctor_init T h init =
     bind (ArrayPtr_ctor T h (of_nat (length init))) (\<lambda>(h1, d).
     bind (copy_list h1 init (Get d) 0) (\<lambda>h2.
     Inr (h2, \<lparr>size_m = of_nat (length init), capacity_m = of_nat (length init), data_m = d\<rparr>)))"

definition GetSize :: "SimpleVector \<Rightarrow> size_t" where
  "GetSize v = size_m v"

definition GetCapacity :: "SimpleVector \<Rightarrow> size_t" where
  "GetCapacity v = capacity_m v"

definition IsEmpty :: "SimpleVector \<Rightarrow> bool" where
  "IsEmpty v = (size_m v = 0)"

text \<open>
  \<^verbatim>\<open>operator[]\<close> and \<^verbatim>\<open>At\<close> return a reference: the cell \<open>(p, i)\<close> for \<^verbatim>\<open>*(p + i)\<close>,
  which \<open>deref\<close> reads. \<^verbatim>\<open>At\<close> is not a \<^verbatim>\<open>const\<close> member, so the model returns the
  store and the vector it leaves beside the reference or the exception.
\<close>

type_synonym reference = "addr option \<times> nat"

definition deref :: "'a heap \<Rightarrow> reference \<Rightarrow> error + 'a" where
  "deref h r = load h (fst r) (snd r)"

definition subscript :: "SimpleVector \<Rightarrow> size_t \<Rightarrow> reference" where
  "subscript v index = (raw_ptr_m (data_m v), unat index)"

definition At :: "'a heap \<Rightarrow> SimpleVector \<Rightarrow> size_t \<Rightarrow> ('a heap \<times> SimpleVector) \<times> (error + reference)" where
  "At h v index =
     (if index \<ge> size_m v then ((h, v), Inl out_of_range)
      else ((h, v), Inr (subscript v index)))"

definition Clear :: "SimpleVector \<Rightarrow> SimpleVector" where
  "Clear v = v\<lparr>size_m := 0\<rparr>"

text \<open>
  \<^verbatim>\<open>Resize\<close>: in the growth branch \<^verbatim>\<open>new_capacity\<close> is an \<^verbatim>\<open>int\<close>; the \<^verbatim>\<open>size_t\<close> maximum is
  narrowed to 32 bits, and converted back (sign-extended) for the \<^verbatim>\<open>ArrayPtr\<close>
  constructor and for \<^verbatim>\<open>capacity_\<close>. \<^verbatim>\<open>new_array\<close> is destroyed at the end of the branch,
  holding the old block after the swap.
\<close>

definition Resize :: "'a type_traits \<Rightarrow> 'a heap \<Rightarrow> SimpleVector \<Rightarrow> size_t \<Rightarrow> error + ('a heap \<times> SimpleVector)" where
  "Resize T h v new_size =
     (if new_size \<le> size_m v then Inr (h, v\<lparr>size_m := new_size\<rparr>)
      else if new_size \<le> capacity_m v then
        bind (fill h (raw_ptr_m (data_m v)) (unat (size_m v)) (unat new_size - unat (size_m v))
                (value_init T)) (\<lambda>h1.
        Inr (h1, v\<lparr>size_m := new_size\<rparr>))
      else
        (let new_capacity = (ucast (max new_size (capacity_m v * 2)) :: 32 word) in
         bind (ArrayPtr_ctor T h (scast new_capacity)) (\<lambda>(h1, new_array).
         bind (move T h1 (raw_ptr_m (data_m v)) 0 (unat (size_m v)) (raw_ptr_m new_array) 0) (\<lambda>h2.
         bind (fill h2 (raw_ptr_m new_array) (unat (size_m v)) (unat new_size - unat (size_m v))
                 (value_init T)) (\<lambda>h3.
         (let (d, old) = ArrayPtr_swap (data_m v) new_array in
          bind (ArrayPtr_dtor h3 old) (\<lambda>h4.
          Inr (h4, v\<lparr>data_m := d, capacity_m := scast new_capacity, size_m := new_size\<rparr>))))))))"

text \<open>\<^verbatim>\<open>begin()\<close>; \<^verbatim>\<open>end()\<close> is \<open>begin\<close> with the offset \<open>size_m\<close>.\<close>

definition begin_it :: "SimpleVector \<Rightarrow> addr option" where
  "begin_it v = Get (data_m v)"

text \<open>
  The copy constructor: \<open>this\<close> starts from the default member initialisers; the
  local \<^verbatim>\<open>cp\<close> is destroyed at the end, holding what \<open>this\<close> held before the swap.
\<close>

definition SimpleVector_copy_ctor :: "'a type_traits \<Rightarrow> 'a heap \<Rightarrow> SimpleVector \<Rightarrow> error + ('a heap \<times> SimpleVector)" where
  "SimpleVector_copy_ctor T h other =
     bind (SimpleVector_ctor_size T h (size_m other)) (\<lambda>(h1, cp).
     bind (copy h1 (begin_it other) 0 (unat (size_m other)) (begin_it cp) 0) (\<lambda>h2.
     (let this = SimpleVector_default\<lparr>size_m := size_m cp, capacity_m := capacity_m cp\<rparr>;
          (d, cpd) = ArrayPtr_swap (data_m this) (data_m cp)
      in bind (ArrayPtr_dtor h2 cpd) (\<lambda>h3. Inr (h3, this\<lparr>data_m := d\<rparr>)))))"

text \<open>The move constructor: the constructed vector and \<open>other\<close> afterwards.\<close>

definition SimpleVector_move_ctor :: "SimpleVector \<Rightarrow> SimpleVector \<times> SimpleVector" where
  "SimpleVector_move_ctor other =
     (let (d, od) = ArrayPtr_move_ctor (data_m other)
      in (\<lparr>size_m = size_m other, capacity_m = capacity_m other, data_m = d\<rparr>,
          other\<lparr>size_m := 0, capacity_m := 0, data_m := od\<rparr>))"

text \<open>
  Move assignment compares \<^verbatim>\<open>this\<close> with \<^verbatim>\<open>&other\<close>: \<open>this\<close> and \<open>other\<close> name vectors
  in \<open>objs\<close>. The \<^verbatim>\<open>data_\<close> member of a vector is the \<^verbatim>\<open>ArrayPtr\<close> object named as its
  vector is.
\<close>

definition SimpleVector_move_assign :: "(nat \<Rightarrow> SimpleVector) \<Rightarrow> nat \<Rightarrow> nat \<Rightarrow> (nat \<Rightarrow> SimpleVector)" where
  "SimpleVector_move_assign objs this other =
     (if this \<noteq> other
      then (let s = size_m (objs other);
                objs1 = objs(other := (objs other)\<lparr>size_m := 0\<rparr>);
                objs2 = objs1(this := (objs1 this)\<lparr>size_m := s\<rparr>);
                c = capacity_m (objs2 other);
                objs3 = objs2(other := (objs2 other)\<lparr>capacity_m := 0\<rparr>);
                objs4 = objs3(this := (objs3 this)\<lparr>capacity_m := c\<rparr>);
                ds = ArrayPtr_move_assign (\<lambda>a. data_m (objs4 a)) this other
            in (\<lambda>a. (objs4 a)\<lparr>data_m := ds a\<rparr>))
      else objs)"

text \<open>
  \<^verbatim>\<open>ReallocateAndMoveData\<close>: \<^verbatim>\<open>new_data\<close> is destroyed on return, holding the old block.
\<close>

definition ReallocateAndMoveData :: "'a type_traits \<Rightarrow> 'a heap \<Rightarrow> SimpleVector \<Rightarrow> size_t \<Rightarrow> error + ('a heap \<times> SimpleVector)" where
  "ReallocateAndMoveData T h v new_capacity =
     bind (ArrayPtr_ctor T h new_capacity) (\<lambda>(h1, new_data).
     (let elements_count = min (size_m v) new_capacity in
      bind (move T h1 (raw_ptr_m (data_m v)) 0 (unat elements_count) (raw_ptr_m new_data) 0) (\<lambda>h2.
      (let (d, nd) = ArrayPtr_swap (data_m v) new_data in
       bind (ArrayPtr_dtor h2 nd) (\<lambda>h3.
       Inr (h3, v\<lparr>data_m := d, capacity_m := new_capacity\<rparr>))))))"

definition Reserve :: "'a type_traits \<Rightarrow> 'a heap \<Rightarrow> SimpleVector \<Rightarrow> size_t \<Rightarrow> error + ('a heap \<times> SimpleVector)" where
  "Reserve T h v new_capacity =
     (if new_capacity > capacity_m v then ReallocateAndMoveData T h v new_capacity
      else Inr (h, v))"

text \<open>\<^verbatim>\<open>explicit SimpleVector(ReserveProxyObject wrapper)\<close>\<close>

definition SimpleVector_ctor_reserve :: "'a type_traits \<Rightarrow> 'a heap \<Rightarrow> ReserveProxyObject \<Rightarrow> error + ('a heap \<times> SimpleVector)" where
  "SimpleVector_ctor_reserve T h wrapper =
     (let this = SimpleVector_default\<lparr>capacity_m := capacity_to_reserve wrapper\<rparr>
      in Reserve T h this (capacity_m this))"

text \<open>\<^verbatim>\<open>PushBack(const Type& value)\<close>; \<open>val\<close> is not a cell of the vector itself.\<close>

definition PushBack :: "'a type_traits \<Rightarrow> 'a heap \<Rightarrow> SimpleVector \<Rightarrow> 'a \<Rightarrow> error + ('a heap \<times> SimpleVector)" where
  "PushBack T h v val =
     (let new_size = size_m v + 1 in
      bind (if new_size > capacity_m v
            then (let new_capacity = (if capacity_m v \<noteq> 0 then max new_size (2 * capacity_m v) else 1)
                  in ReallocateAndMoveData T h v new_capacity)
            else Inr (h, v)) (\<lambda>(h1, v1).
      bind (store h1 (raw_ptr_m (data_m v1)) (unat (size_m v1)) val) (\<lambda>h2.
      Inr (h2, v1\<lparr>size_m := new_size\<rparr>))))"

text \<open>
  \<^verbatim>\<open>Insert(ConstIterator position, const Type& value)\<close>: \<open>position_offset\<close> is
  \<^verbatim>\<open>position - data_.Get()\<close>, and the iterator returned is that offset into the vector
  returned. \<open>val\<close> is not a cell of the vector itself. The \<^verbatim>\<open>assert\<close>s are compiled in.
\<close>

definition Insert :: "'a type_traits \<Rightarrow> 'a heap \<Rightarrow> SimpleVector \<Rightarrow> size_t \<Rightarrow> 'a \<Rightarrow> error + ('a heap \<times> SimpleVector \<times> size_t)" where
  "Insert T h v position_offset val =
     (if \<not> position_offset \<le> size_m v then Inl assertion_failed
      else
        (let new_size = size_m v + 1 in
         if new_size \<le> capacity_m v then
           bind (copy_backward h (Get (data_m v)) (unat position_offset)
                   (unat (size_m v) - unat position_offset)
                   (Get (data_m v)) (unat position_offset + 1)) (\<lambda>h1.
           bind (store h1 (raw_ptr_m (data_m v)) (unat position_offset) val) (\<lambda>h2.
           Inr (h2, v\<lparr>size_m := new_size\<rparr>, position_offset)))
         else
           (let new_capacity = (if capacity_m v \<noteq> 0 then max new_size (2 * capacity_m v) else 1) in
            bind (ArrayPtr_ctor T h new_capacity) (\<lambda>(h1, new_data).
            bind (copy h1 (Get (data_m v)) 0 (unat position_offset) (Get new_data) 0) (\<lambda>h2.
            bind (store h2 (raw_ptr_m new_data) (unat position_offset) val) (\<lambda>h3.
            bind (copy h3 (Get (data_m v)) (unat position_offset)
                    (unat (size_m v) - unat position_offset)
                    (Get new_data) (unat position_offset + 1)) (\<lambda>h4.
            (let (d, nd) = ArrayPtr_swap (data_m v) new_data in
             bind (ArrayPtr_dtor h4 nd) (\<lambda>h5.
             Inr (h5, v\<lparr>data_m := d, capacity_m := new_capacity, size_m := new_size\<rparr>,
                  position_offset))))))))))"

definition PopBack :: "SimpleVector \<Rightarrow> error + SimpleVector" where
  "PopBack v = (if \<not> size_m v \<noteq> 0 then Inl assertion_failed else Inr (v\<lparr>size_m := size_m v - 1\<rparr>))"

text \<open>
  \<^verbatim>\<open>Erase(ConstIterator pos)\<close>, \<open>pos\<close> being \<^verbatim>\<open>begin() + erase_index\<close>: the assertion
  \<^verbatim>\<open>pos >= begin() && pos < end()\<close> is \<open>erase_index < size_m\<close>.
\<close>

definition Erase :: "'a type_traits \<Rightarrow> 'a heap \<Rightarrow> SimpleVector \<Rightarrow> size_t \<Rightarrow> error + ('a heap \<times> SimpleVector \<times> size_t)" where
  "Erase T h v erase_index =
     (if \<not> erase_index < size_m v then Inl assertion_failed
      else
        bind (move T h (begin_it v) (unat erase_index + 1)
                (unat (size_m v) - (unat erase_index + 1))
                (begin_it v) (unat erase_index)) (\<lambda>h1.
        Inr (h1, v\<lparr>size_m := size_m v - 1\<rparr>, erase_index)))"

text \<open>\<^verbatim>\<open>swap\<close>: the vector and \<open>other\<close> afterwards.\<close>

definition SimpleVector_swap :: "SimpleVector \<Rightarrow> SimpleVector \<Rightarrow> SimpleVector \<times> SimpleVector" where
  "SimpleVector_swap v other =
     (let (d, od) = ArrayPtr_swap (data_m v) (data_m other)
      in (v\<lparr>size_m := size_m other, capacity_m := capacity_m other, data_m := d\<rparr>,
          other\<lparr>size_m := size_m v, capacity_m := capacity_m v, data_m := od\<rparr>))"

text \<open>\<^verbatim>\<open>operator==\<close>: \<^verbatim>\<open>std::equal(lhs.begin(), lhs.end(), rhs.begin())\<close>.\<close>

definition operator_eq :: "'a heap \<Rightarrow> SimpleVector \<Rightarrow> SimpleVector \<Rightarrow> error + bool" where
  "operator_eq h lhs rhs = equal h (begin_it lhs) 0 (unat (size_m lhs)) (begin_it rhs) 0"

section \<open>Observations\<close>

text \<open>
  The sequence of logical elements of a vector, \<^verbatim>\<open>[begin(), end())\<close>; the physical
  extent of the buffer an \<^verbatim>\<open>ArrayPtr\<close> owns (0 for \<^verbatim>\<open>nullptr\<close>, nothing for a dangling
  pointer); and the invariant of the data model: the size is at most the capacity, and
  the capacity is the extent of the owned buffer, a block allocated earlier.
\<close>

definition elems :: "'a heap \<Rightarrow> SimpleVector \<Rightarrow> 'a list" where
  "elems h v =
     (case raw_ptr_m (data_m v) of
        None \<Rightarrow> []
      | Some a \<Rightarrow> (case blocks h a of None \<Rightarrow> [] | Some xs \<Rightarrow> take (unat (size_m v)) xs))"

definition extent :: "'a heap \<Rightarrow> ArrayPtr \<Rightarrow> nat option" where
  "extent h p =
     (case raw_ptr_m p of
        None \<Rightarrow> Some 0
      | Some a \<Rightarrow> (case blocks h a of None \<Rightarrow> None | Some xs \<Rightarrow> Some (length xs)))"

definition allocated :: "'a heap \<Rightarrow> ArrayPtr \<Rightarrow> bool" where
  "allocated h p = (case raw_ptr_m p of None \<Rightarrow> True | Some a \<Rightarrow> a < next_addr h)"

definition valid :: "'a heap \<Rightarrow> SimpleVector \<Rightarrow> bool" where
  "valid h v \<longleftrightarrow>
     size_m v \<le> capacity_m v \<and> extent h (data_m v) = Some (unat (capacity_m v)) \<and>
     allocated h (data_m v)"

section \<open>Sequences of operations\<close>

text \<open>
  Callers of the vector: \<open>PushBack_all\<close> pushes the values of a list one after the other;
  a \<open>mutation\<close> is one call that changes a vector through its own members
  (\<open>M_Assign i x\<close> is \<^verbatim>\<open>v[i] = x\<close>), and \<open>mutate_all\<close> runs a list of them.
\<close>

fun PushBack_all :: "'a type_traits \<Rightarrow> 'a heap \<Rightarrow> SimpleVector \<Rightarrow> 'a list \<Rightarrow> error + ('a heap \<times> SimpleVector)" where
  "PushBack_all T h v [] = Inr (h, v)"
| "PushBack_all T h v (x # xs) = bind (PushBack T h v x) (\<lambda>(h', v'). PushBack_all T h' v' xs)"

datatype 'a mutation =
    M_PushBack 'a
  | M_PopBack
  | M_Insert size_t 'a
  | M_Erase size_t
  | M_Resize size_t
  | M_Reserve size_t
  | M_Clear
  | M_Assign size_t 'a

fun mutate :: "'a type_traits \<Rightarrow> 'a heap \<Rightarrow> SimpleVector \<Rightarrow> 'a mutation \<Rightarrow> error + ('a heap \<times> SimpleVector)" where
  "mutate T h v (M_PushBack x) = PushBack T h v x"
| "mutate T h v M_PopBack = bind (PopBack v) (\<lambda>v'. Inr (h, v'))"
| "mutate T h v (M_Insert p x) = bind (Insert T h v p x) (\<lambda>(h', v', pos). Inr (h', v'))"
| "mutate T h v (M_Erase p) = bind (Erase T h v p) (\<lambda>(h', v', pos). Inr (h', v'))"
| "mutate T h v (M_Resize n) = Resize T h v n"
| "mutate T h v (M_Reserve n) = Reserve T h v n"
| "mutate T h v M_Clear = Inr (h, Clear v)"
| "mutate T h v (M_Assign i x) =
     bind (store h (fst (subscript v i)) (snd (subscript v i)) x) (\<lambda>h'. Inr (h', v))"

fun mutate_all :: "'a type_traits \<Rightarrow> 'a heap \<Rightarrow> SimpleVector \<Rightarrow> 'a mutation list \<Rightarrow> error + ('a heap \<times> SimpleVector)" where
  "mutate_all T h v [] = Inr (h, v)"
| "mutate_all T h v (m # ms) = bind (mutate T h v m) (\<lambda>(h', v'). mutate_all T h' v' ms)"

section \<open>Notions for the proofs\<close>

text \<open>
  \<open>set_block\<close> replaces the content of one block. Block \<open>a\<close> is \<open>apart\<close> from a vector
  when it was allocated and is not the vector's buffer; \<open>frame a h h'\<close> says that the
  store \<open>h'\<close>, later than \<open>h\<close>, holds block \<open>a\<close> as \<open>h\<close> does. \<open>SIZE_MAX\<close> is the
  largest \<^verbatim>\<open>size_t\<close>.
\<close>

definition set_block :: "'a heap \<Rightarrow> addr \<Rightarrow> 'a list \<Rightarrow> 'a heap" where
  "set_block h a ys = h\<lparr>blocks := (blocks h)(a \<mapsto> ys)\<rparr>"

definition apart :: "addr \<Rightarrow> 'a heap \<Rightarrow> SimpleVector \<Rightarrow> bool" where
  "apart a h v \<longleftrightarrow> a < next_addr h \<and> raw_ptr_m (data_m v) \<noteq> Some a"

definition frame :: "addr \<Rightarrow> 'a heap \<Rightarrow> 'a heap \<Rightarrow> bool" where
  "frame a h h' \<longleftrightarrow> blocks h' a = blocks h a \<and> next_addr h \<le> next_addr h'"

definition SIZE_MAX :: size_t where
  "SIZE_MAX = - 1"

section \<open>Sample values\<close>

text \<open>
  The element type \<^verbatim>\<open>int\<close>, and stores and vectors as the constructors leave them:
  \<open>v_123\<close> is \<^verbatim>\<open>{1, 2, 3}\<close> in \<open>h_123\<close>, and \<open>v_13\<close> in \<open>h_13\<close> what \<^verbatim>\<open>Erase\<close> at 1 leaves of it; \<open>v_12\<close> and \<open>w_123\<close> are \<^verbatim>\<open>{1, 2}\<close> and
  \<^verbatim>\<open>{1, 2, 3}\<close> in \<open>h_pair\<close>; \<open>v_copy\<close> is the
  copy of \<open>v_123\<close> in \<open>h_copy\<close>; \<open>ptrs_AB\<close> and \<open>objs_AB\<close> are objects by address;
  \<open>v_reserved\<close> is what \<^verbatim>\<open>SimpleVector<int> v(Reserve(5))\<close> constructs.
\<close>

definition T_int :: "int type_traits" where
  "T_int = \<lparr>value_init = 0, default_init = (\<lambda>i. 0), moved_from = (\<lambda>x. x)\<rparr>"

definition h_empty :: "int heap" where
  "h_empty = \<lparr>blocks = Map.empty, next_addr = 0, alloc_limit = 2 ^ 40\<rparr>"

definition h_123 :: "int heap" where
  "h_123 = \<lparr>blocks = [0 \<mapsto> [1, 2, 3]], next_addr = 1, alloc_limit = 2 ^ 40\<rparr>"

definition v_123 :: SimpleVector where
  "v_123 = \<lparr>size_m = 3, capacity_m = 3, data_m = \<lparr>raw_ptr_m = Some 0\<rparr>\<rparr>"

definition h_13 :: "int heap" where
  "h_13 = \<lparr>blocks = [0 \<mapsto> [1, 3, 3]], next_addr = 1, alloc_limit = 2 ^ 40\<rparr>"

definition v_13 :: SimpleVector where
  "v_13 = \<lparr>size_m = 2, capacity_m = 3, data_m = \<lparr>raw_ptr_m = Some 0\<rparr>\<rparr>"

definition h_12 :: "int heap" where
  "h_12 = \<lparr>blocks = [0 \<mapsto> [1, 2]], next_addr = 1, alloc_limit = 2 ^ 40\<rparr>"

definition h_pair :: "int heap" where
  "h_pair = \<lparr>blocks = [0 \<mapsto> [1, 2], 1 \<mapsto> [1, 2, 3]], next_addr = 2, alloc_limit = 2 ^ 40\<rparr>"

definition v_12 :: SimpleVector where
  "v_12 = \<lparr>size_m = 2, capacity_m = 2, data_m = \<lparr>raw_ptr_m = Some 0\<rparr>\<rparr>"

definition w_123 :: SimpleVector where
  "w_123 = \<lparr>size_m = 3, capacity_m = 3, data_m = \<lparr>raw_ptr_m = Some 1\<rparr>\<rparr>"

definition h_copy :: "int heap" where
  "h_copy = \<lparr>blocks = [0 \<mapsto> [1, 2, 3], 1 \<mapsto> [1, 2, 3]], next_addr = 2, alloc_limit = 2 ^ 40\<rparr>"

definition v_copy :: SimpleVector where
  "v_copy = \<lparr>size_m = 3, capacity_m = 3, data_m = \<lparr>raw_ptr_m = Some 1\<rparr>\<rparr>"

definition ptrs_AB :: "nat \<Rightarrow> ArrayPtr" where
  "ptrs_AB a = (if a = 0 then \<lparr>raw_ptr_m = Some 10\<rparr> else \<lparr>raw_ptr_m = Some (20 + a)\<rparr>)"

definition objs_AB :: "nat \<Rightarrow> SimpleVector" where
  "objs_AB a = (if a = 1 then v_123 else SimpleVector_default)"

definition v_reserved :: SimpleVector where
  "v_reserved = \<lparr>size_m = 0, capacity_m = 5, data_m = \<lparr>raw_ptr_m = None\<rparr>\<rparr>"

section \<open>The error monad and single accesses\<close>

lemma bind_Inr [simp]: "bind (Inr x) f = f x"
  by (simp add: bind_def)

lemma bind_Inl [simp]: "bind (Inl e) f = Inl e"
  by (simp add: bind_def)

lemma bind_eq_Inr: "bind m f = Inr y \<longleftrightarrow> (\<exists>x. m = Inr x \<and> f x = Inr y)"
  by (cases m) simp_all

lemma set_block_simps [simp]:
  "blocks (set_block h a ys) = (blocks h)(a \<mapsto> ys)"
  "next_addr (set_block h a ys) = next_addr h"
  "alloc_limit (set_block h a ys) = alloc_limit h"
  by (simp_all add: set_block_def)

lemma set_block_twice [simp]: "set_block (set_block h a ys) a zs = set_block h a zs"
  by (simp add: set_block_def)

lemma set_block_same: "blocks h a = Some xs \<Longrightarrow> set_block h a xs = h"
  by (simp add: set_block_def map_upd_triv)

lemma set_block_commute:
  "s \<noteq> d \<Longrightarrow> set_block (set_block h s xs) d ys = set_block (set_block h d ys) s xs"
  by (simp add: set_block_def fun_upd_twist)

lemma load_block: "blocks h a = Some xs \<Longrightarrow> i < length xs \<Longrightarrow> load h (Some a) i = Inr (xs ! i)"
  by (simp add: load_def)

lemma store_block:
  "blocks h a = Some xs \<Longrightarrow> i < length xs \<Longrightarrow> store h (Some a) i x = Inr (set_block h a (xs[i := x]))"
  by (simp add: store_def set_block_def)

lemma new_array_ok:
  "n \<le> alloc_limit h \<Longrightarrow>
   new_array T h n =
     Inr (h\<lparr>blocks := (blocks h)(next_addr h \<mapsto> map (default_init T) [0..<n]),
            next_addr := Suc (next_addr h)\<rparr>, next_addr h)"
  by (simp add: new_array_def)

lemma new_array_fail: "alloc_limit h < n \<Longrightarrow> new_array T h n = Inl bad_alloc"
  by (simp add: new_array_def)

lemma delete_array_block:
  "blocks h a = Some xs \<Longrightarrow> delete_array h (Some a) = Inr (h\<lparr>blocks := (blocks h)(a := None)\<rparr>)"
  by (simp add: delete_array_def)

section \<open>What the loops compute\<close>

lemma fill_block:
  "blocks h a = Some xs \<Longrightarrow> i + n \<le> length xs \<Longrightarrow>
   fill h (Some a) i n x = Inr (set_block h a (take i xs @ replicate n x @ drop (i + n) xs))"
proof (induction n arbitrary: h xs i)
  case 0
  then show ?case by (simp add: set_block_same)
next
  case (Suc n)
  have i: "i < length xs" using Suc.prems by simp
  have st: "store h (Some a) i x = Inr (set_block h a (xs[i := x]))"
    using Suc.prems i by (simp add: store_block)
  have "fill (set_block h a (xs[i := x])) (Some a) (Suc i) n x =
        Inr (set_block (set_block h a (xs[i := x])) a
               (take (Suc i) (xs[i := x]) @ replicate n x @ drop (Suc i + n) (xs[i := x])))"
    using Suc.prems by (intro Suc.IH) simp_all
  moreover have "take (Suc i) (xs[i := x]) @ replicate n x @ drop (Suc i + n) (xs[i := x]) =
                 take i xs @ replicate (Suc n) x @ drop (i + Suc n) xs"
    using i by (simp add: take_Suc_conv_app_nth)
  ultimately show ?case using st by simp
qed

lemma fill_overflow:
  "blocks h a = Some xs \<Longrightarrow> i \<le> length xs \<Longrightarrow> length xs < i + n \<Longrightarrow>
   fill h (Some a) i n x = Inl undefined_behaviour"
proof (induction n arbitrary: h xs i)
  case 0
  then show ?case by simp
next
  case (Suc n)
  show ?case
  proof (cases "i < length xs")
    case True
    have st: "store h (Some a) i x = Inr (set_block h a (xs[i := x]))"
      using Suc.prems(1) True by (rule store_block)
    have "fill (set_block h a (xs[i := x])) (Some a) (Suc i) n x = Inl undefined_behaviour"
      using True Suc.prems(3) by (intro Suc.IH [where xs = "xs[i := x]"]) simp_all
    then show ?thesis using st by simp
  next
    case False
    then show ?thesis using Suc.prems(1) by (simp add: store_def)
  qed
qed

lemma copy_list_block:
  "blocks h a = Some ys \<Longrightarrow> di + length xs \<le> length ys \<Longrightarrow>
   copy_list h xs (Some a) di = Inr (set_block h a (take di ys @ xs @ drop (di + length xs) ys))"
proof (induction xs arbitrary: h ys di)
  case Nil
  then show ?case by (simp add: set_block_same)
next
  case (Cons x xs)
  have i: "di < length ys" using Cons.prems by simp
  have st: "store h (Some a) di x = Inr (set_block h a (ys[di := x]))"
    using Cons.prems i by (simp add: store_block)
  have "copy_list (set_block h a (ys[di := x])) xs (Some a) (Suc di) =
        Inr (set_block (set_block h a (ys[di := x])) a
               (take (Suc di) (ys[di := x]) @ xs @ drop (Suc di + length xs) (ys[di := x])))"
    using Cons.prems by (intro Cons.IH) simp_all
  moreover have "take (Suc di) (ys[di := x]) @ xs @ drop (Suc di + length xs) (ys[di := x]) =
                 take di ys @ (x # xs) @ drop (di + length (x # xs)) ys"
    using i by (simp add: take_Suc_conv_app_nth)
  ultimately show ?case using st by simp
qed

lemma copy_block:
  "blocks h s = Some xs \<Longrightarrow> blocks h d = Some ys \<Longrightarrow> s \<noteq> d \<Longrightarrow>
   si + n \<le> length xs \<Longrightarrow> di + n \<le> length ys \<Longrightarrow>
   copy h (Some s) si n (Some d) di =
     Inr (set_block h d (take di ys @ take n (drop si xs) @ drop (di + n) ys))"
proof (induction n arbitrary: h ys si di)
  case 0
  then show ?case by (simp add: set_block_same)
next
  case (Suc n)
  have i: "di < length ys" and j: "si < length xs" using Suc.prems by simp_all
  have ld: "load h (Some s) si = Inr (xs ! si)"
    using Suc.prems j by (simp add: load_block)
  have st: "store h (Some d) di (xs ! si) = Inr (set_block h d (ys[di := xs ! si]))"
    using Suc.prems i by (simp add: store_block)
  let ?ys = "ys[di := xs ! si]"
  have eq: "take (Suc di) ?ys @ take n (drop (Suc si) xs) @ drop (Suc di + n) ?ys =
            take di ys @ take (Suc n) (drop si xs) @ drop (di + Suc n) ys"
    using i j by (simp add: take_Suc_conv_app_nth Cons_nth_drop_Suc [symmetric])
  have "copy h (Some s) si (Suc n) (Some d) di =
        copy (set_block h d ?ys) (Some s) (Suc si) n (Some d) (Suc di)"
    by (simp add: ld st)
  also have "\<dots> = Inr (set_block (set_block h d ?ys) d
               (take (Suc di) ?ys @ take n (drop (Suc si) xs) @ drop (Suc di + n) ?ys))"
    using Suc.prems by (intro Suc.IH) simp_all
  also have "\<dots> = Inr (set_block h d (take di ys @ take (Suc n) (drop si xs) @ drop (di + Suc n) ys))"
    by (simp only: eq set_block_twice)
  finally show ?case .
qed

lemma copy_backward_block:
  "blocks h a = Some xs \<Longrightarrow> p + n < length xs \<Longrightarrow>
   copy_backward h (Some a) p n (Some a) (p + 1) =
     Inr (set_block h a (take (p + 1) xs @ take n (drop p xs) @ drop (p + n + 1) xs))"
proof (induction n arbitrary: h xs)
  case 0
  then show ?case by (simp add: set_block_same)
next
  case (Suc n)
  have j: "p + n < length xs" and i: "p + n + 1 < length xs" using Suc.prems by simp_all
  have ld: "load h (Some a) (p + n) = Inr (xs ! (p + n))"
    using Suc.prems j by (simp add: load_block)
  let ?xs = "xs[p + 1 + n := xs ! (p + n)]"
  have st: "store h (Some a) (p + 1 + n) (xs ! (p + n)) = Inr (set_block h a ?xs)"
    using Suc.prems i by (simp add: store_block)
  have "copy_backward (set_block h a ?xs) (Some a) p n (Some a) (p + 1) =
        Inr (set_block (set_block h a ?xs) a
               (take (p + 1) ?xs @ take n (drop p ?xs) @ drop (p + n + 1) ?xs))"
    using Suc.prems by (intro Suc.IH) simp_all
  moreover have "take (p + 1) ?xs @ take n (drop p ?xs) @ drop (p + n + 1) ?xs =
                 take (p + 1) xs @ take (Suc n) (drop p xs) @ drop (p + Suc n + 1) xs"
  proof (rule nth_equalityI)
    show "length (take (p + 1) ?xs @ take n (drop p ?xs) @ drop (p + n + 1) ?xs) =
          length (take (p + 1) xs @ take (Suc n) (drop p xs) @ drop (p + Suc n + 1) xs)"
      using i by simp
  next
    fix k
    assume "k < length (take (p + 1) ?xs @ take n (drop p ?xs) @ drop (p + n + 1) ?xs)"
    then have k: "k < length xs" using i by simp
    show "(take (p + 1) ?xs @ take n (drop p ?xs) @ drop (p + n + 1) ?xs) ! k =
          (take (p + 1) xs @ take (Suc n) (drop p xs) @ drop (p + Suc n + 1) xs) ! k"
      using i k by (auto simp: nth_append nth_list_update min_def intro!: arg_cong [where f = "(!) xs"])
  qed
  ultimately show ?case using ld st by simp
qed

lemma move_shift_block:
  "blocks h a = Some xs \<Longrightarrow> p + 1 + n \<le> length xs \<Longrightarrow>
   move T h (Some a) (p + 1) n (Some a) p =
     Inr (set_block h a
            (if n = 0 then xs
             else take p xs @ take n (drop (p + 1) xs) @ [moved_from T (xs ! (p + n))] @
                  drop (p + n + 1) xs))"
proof (induction n arbitrary: h xs p)
  case 0
  then show ?case by (simp add: set_block_same)
next
  case (Suc n)
  have j: "p + 1 < length xs" and i: "p < length xs" using Suc.prems by simp_all
  let ?x = "xs ! (p + 1)"
  let ?xs1 = "xs[p := ?x]"
  let ?xs2 = "?xs1[p + 1 := moved_from T ?x]"
  have ld: "load h (Some a) (p + 1) = Inr ?x"
    using Suc.prems j by (simp add: load_block)
  have st1: "store h (Some a) p ?x = Inr (set_block h a ?xs1)"
    using Suc.prems i by (simp add: store_block)
  have st2: "store (set_block h a ?xs1) (Some a) (p + 1) (moved_from T ?x) = Inr (set_block h a ?xs2)"
    using j by (simp add: store_block)
  have eq: "(if n = 0 then ?xs2
             else take (p + 1) ?xs2 @ take n (drop (p + 1 + 1) ?xs2) @
                  [moved_from T (?xs2 ! (p + 1 + n))] @ drop (p + 1 + n + 1) ?xs2) =
            take p xs @ take (Suc n) (drop (p + 1) xs) @ [moved_from T (xs ! (p + Suc n))] @
              drop (p + Suc n + 1) xs" (is "?l = ?r")
  proof (rule nth_equalityI)
    show "length ?l = length ?r" using Suc.prems by auto
  next
    fix k
    assume "k < length ?l"
    then have k: "k < length xs" using Suc.prems by (auto split: if_splits)
    show "?l ! k = ?r ! k"
      using Suc.prems k
      by (auto simp: nth_append nth_list_update min_def nth_Cons split: nat.splits
               intro!: arg_cong [where f = "(!) xs"] arg_cong [where f = "moved_from T"])
  qed
  have "move T h (Some a) (p + 1) (Suc n) (Some a) p =
        move T (set_block h a ?xs2) (Some a) (Suc (p + 1)) n (Some a) (Suc p)"
    using ld st1 st2 by simp
  also have "\<dots> = move T (set_block h a ?xs2) (Some a) (p + 1 + 1) n (Some a) (p + 1)"
    by simp
  also have "\<dots> = Inr (set_block (set_block h a ?xs2) a
                (if n = 0 then ?xs2
                 else take (p + 1) ?xs2 @ take n (drop (p + 1 + 1) ?xs2) @
                      [moved_from T (?xs2 ! (p + 1 + n))] @ drop (p + 1 + n + 1) ?xs2))"
    using Suc.prems by (intro Suc.IH) simp_all
  also have "\<dots> = Inr (set_block h a
                (take p xs @ take (Suc n) (drop (p + 1) xs) @ [moved_from T (xs ! (p + Suc n))] @
                 drop (p + Suc n + 1) xs))"
    by (simp only: eq set_block_twice)
  finally show ?case by simp
qed

lemma move_block:
  "blocks h s = Some xs \<Longrightarrow> blocks h d = Some ys \<Longrightarrow> s \<noteq> d \<Longrightarrow>
   si + n \<le> length xs \<Longrightarrow> di + n \<le> length ys \<Longrightarrow>
   move T h (Some s) si n (Some d) di =
     Inr (set_block (set_block h d (take di ys @ take n (drop si xs) @ drop (di + n) ys)) s
            (take si xs @ map (moved_from T) (take n (drop si xs)) @ drop (si + n) xs))"
proof (induction n arbitrary: h xs ys si di)
  case 0
  then show ?case by (simp add: set_block_same)
next
  case (Suc n)
  have i: "di < length ys" and j: "si < length xs" using Suc.prems by simp_all
  let ?x = "xs ! si"
  let ?ys = "ys[di := ?x]"
  let ?xs = "xs[si := moved_from T ?x]"
  let ?h1 = "set_block h d ?ys"
  let ?h2 = "set_block ?h1 s ?xs"
  have ld: "load h (Some s) si = Inr ?x"
    using Suc.prems j by (simp add: load_block)
  have st1: "store h (Some d) di ?x = Inr ?h1"
    using Suc.prems i by (simp add: store_block)
  have st2: "store ?h1 (Some s) si (moved_from T ?x) = Inr ?h2"
    using Suc.prems j by (simp add: store_block)
  have eqd: "take (Suc di) ?ys @ take n (drop (Suc si) ?xs) @ drop (Suc di + n) ?ys =
             take di ys @ take (Suc n) (drop si xs) @ drop (di + Suc n) ys"
    using i j by (simp add: take_Suc_conv_app_nth Cons_nth_drop_Suc [symmetric])
  have eqs: "take (Suc si) ?xs @ map (moved_from T) (take n (drop (Suc si) ?xs)) @ drop (Suc si + n) ?xs =
             take si xs @ map (moved_from T) (take (Suc n) (drop si xs)) @ drop (si + Suc n) xs"
    using i j by (simp add: take_Suc_conv_app_nth Cons_nth_drop_Suc [symmetric])
  have "move T h (Some s) si (Suc n) (Some d) di = move T ?h2 (Some s) (Suc si) n (Some d) (Suc di)"
    using ld st1 st2 by simp
  also have "\<dots> = Inr (set_block (set_block ?h2 d
                  (take (Suc di) ?ys @ take n (drop (Suc si) ?xs) @ drop (Suc di + n) ?ys)) s
                  (take (Suc si) ?xs @ map (moved_from T) (take n (drop (Suc si) ?xs)) @
                   drop (Suc si + n) ?xs))"
    using Suc.prems by (intro Suc.IH) simp_all
  also have "\<dots> = Inr (set_block (set_block h d
                  (take di ys @ take (Suc n) (drop si xs) @ drop (di + Suc n) ys)) s
                  (take si xs @ map (moved_from T) (take (Suc n) (drop si xs)) @ drop (si + Suc n) xs))"
    using Suc.prems(3) by (simp only: eqd eqs) (simp add: set_block_def fun_upd_twist)
  finally show ?case .
qed

lemma equal_block:
  "blocks h s = Some xs \<Longrightarrow> blocks h d = Some ys \<Longrightarrow>
   si + n \<le> length xs \<Longrightarrow> di + n \<le> length ys \<Longrightarrow>
   equal h (Some s) si n (Some d) di = Inr (take n (drop si xs) = take n (drop di ys))"
proof (induction n arbitrary: si di)
  case 0
  then show ?case by simp
next
  case (Suc n)
  have i: "si < length xs" and j: "di < length ys" using Suc.prems by simp_all
  have l1: "load h (Some s) si = Inr (xs ! si)" using Suc.prems(1) i by (rule load_block)
  have l2: "load h (Some d) di = Inr (ys ! di)" using Suc.prems(2) j by (rule load_block)
  have t1: "take (Suc n) (drop si xs) = xs ! si # take n (drop (Suc si) xs)"
    using i by (simp add: Cons_nth_drop_Suc [symmetric])
  have t2: "take (Suc n) (drop di ys) = ys ! di # take n (drop (Suc di) ys)"
    using j by (simp add: Cons_nth_drop_Suc [symmetric])
  have ih: "equal h (Some s) (Suc si) n (Some d) (Suc di) =
            Inr (take n (drop (Suc si) xs) = take n (drop (Suc di) ys))"
    using Suc.prems by (intro Suc.IH) simp_all
  show ?case by (simp add: l1 l2 t1 t2 ih)
qed

section \<open>What the loops leave alone\<close>

lemma store_frame:
  "store h p i x = Inr h' \<Longrightarrow>
   next_addr h' = next_addr h \<and> alloc_limit h' = alloc_limit h \<and>
   (p \<noteq> Some a \<longrightarrow> blocks h' a = blocks h a)"
  by (auto simp: store_def split: option.splits if_splits)

lemma fill_frame:
  "fill h p i n x = Inr h' \<Longrightarrow>
   next_addr h' = next_addr h \<and> alloc_limit h' = alloc_limit h \<and>
   (p \<noteq> Some a \<longrightarrow> blocks h' a = blocks h a)"
proof (induction n arbitrary: h i)
  case 0
  then show ?case by simp
next
  case (Suc n)
  then obtain h1 where 1: "store h p i x = Inr h1" and 2: "fill h1 p (Suc i) n x = Inr h'"
    by (auto simp: bind_eq_Inr)
  show ?case using store_frame [OF 1, of a] Suc.IH [OF 2] by simp
qed

lemma copy_frame:
  "copy h s si n d di = Inr h' \<Longrightarrow>
   next_addr h' = next_addr h \<and> alloc_limit h' = alloc_limit h \<and>
   (d \<noteq> Some a \<longrightarrow> blocks h' a = blocks h a)"
proof (induction n arbitrary: h si di)
  case 0
  then show ?case by simp
next
  case (Suc n)
  then obtain x h1 where 1: "store h d di x = Inr h1"
    and 2: "copy h1 s (Suc si) n d (Suc di) = Inr h'"
    by (auto simp: bind_eq_Inr)
  show ?case using store_frame [OF 1, of a] Suc.IH [OF 2] by simp
qed

lemma copy_backward_frame:
  "copy_backward h s si n d di = Inr h' \<Longrightarrow>
   next_addr h' = next_addr h \<and> alloc_limit h' = alloc_limit h \<and>
   (d \<noteq> Some a \<longrightarrow> blocks h' a = blocks h a)"
proof (induction n arbitrary: h)
  case 0
  then show ?case by simp
next
  case (Suc n)
  then obtain x h1 where 1: "store h d (di + n) x = Inr h1"
    and 2: "copy_backward h1 s si n d di = Inr h'"
    by (auto simp: bind_eq_Inr)
  show ?case using store_frame [OF 1, of a] Suc.IH [OF 2] by simp
qed

lemma move_frame:
  "move T h s si n d di = Inr h' \<Longrightarrow>
   next_addr h' = next_addr h \<and> alloc_limit h' = alloc_limit h \<and>
   (s \<noteq> Some a \<longrightarrow> d \<noteq> Some a \<longrightarrow> blocks h' a = blocks h a)"
proof (induction n arbitrary: h si di)
  case 0
  then show ?case by simp
next
  case (Suc n)
  then obtain x h1 h2 where 1: "store h d di x = Inr h1"
    and 2: "store h1 s si (moved_from T x) = Inr h2"
    and 3: "move T h2 s (Suc si) n d (Suc di) = Inr h'"
    by (auto simp: bind_eq_Inr)
  show ?case using store_frame [OF 1, of a] store_frame [OF 2, of a] Suc.IH [OF 3] by simp
qed

lemma new_array_frame:
  "new_array T h n = Inr (h', b) \<Longrightarrow>
   b = next_addr h \<and> next_addr h' = Suc (next_addr h) \<and> alloc_limit h' = alloc_limit h \<and>
   (a \<noteq> b \<longrightarrow> blocks h' a = blocks h a)"
  by (auto simp: new_array_def split: if_splits)

lemma delete_array_frame:
  "delete_array h p = Inr h' \<Longrightarrow>
   next_addr h' = next_addr h \<and> alloc_limit h' = alloc_limit h \<and>
   (p \<noteq> Some a \<longrightarrow> blocks h' a = blocks h a)"
  by (auto simp: delete_array_def split: option.splits)

lemma frame_refl [simp]: "frame a h h"
  by (simp add: frame_def)

lemma frame_trans: "frame a h h1 \<Longrightarrow> frame a h1 h2 \<Longrightarrow> frame a h h2"
  by (simp add: frame_def)

lemma store_keeps: "store h p i x = Inr h' \<Longrightarrow> p \<noteq> Some a \<Longrightarrow> frame a h h'"
  using store_frame [of h p i x h' a] by (simp add: frame_def)

lemma fill_keeps: "fill h p i n x = Inr h' \<Longrightarrow> p \<noteq> Some a \<Longrightarrow> frame a h h'"
  using fill_frame [of h p i n x h' a] by (simp add: frame_def)

lemma copy_keeps: "copy h s si n d di = Inr h' \<Longrightarrow> d \<noteq> Some a \<Longrightarrow> frame a h h'"
  using copy_frame [of h s si n d di h' a] by (simp add: frame_def)

lemma copy_backward_keeps: "copy_backward h s si n d di = Inr h' \<Longrightarrow> d \<noteq> Some a \<Longrightarrow> frame a h h'"
  using copy_backward_frame [of h s si n d di h' a] by (simp add: frame_def)

lemma move_keeps: "move T h s si n d di = Inr h' \<Longrightarrow> s \<noteq> Some a \<Longrightarrow> d \<noteq> Some a \<Longrightarrow> frame a h h'"
  using move_frame [of T h s si n d di h' a] by (simp add: frame_def)

lemma delete_array_keeps: "delete_array h p = Inr h' \<Longrightarrow> p \<noteq> Some a \<Longrightarrow> frame a h h'"
  using delete_array_frame [of h p h' a] by (simp add: frame_def)

lemma ArrayPtr_ctor_keeps:
  "ArrayPtr_ctor T h n = Inr (h', p) \<Longrightarrow> a < next_addr h \<Longrightarrow> frame a h h' \<and> raw_ptr_m p \<noteq> Some a"
  by (auto simp: ArrayPtr_ctor_def new_array_def frame_def bind_eq_Inr split: if_splits)

section \<open>The operations on a valid vector\<close>

lemma elems_block:
  "raw_ptr_m (data_m v) = Some a \<Longrightarrow> blocks h a = Some xs \<Longrightarrow>
   elems h v = take (unat (size_m v)) xs"
  by (simp add: elems_def)

lemma elems_null: "raw_ptr_m (data_m v) = None \<Longrightarrow> elems h v = []"
  by (simp add: elems_def)

lemma valid_cases:
  assumes "valid h v"
  obtains (null) "raw_ptr_m (data_m v) = None" "capacity_m v = 0" "size_m v = 0"
  | (block) a xs where "raw_ptr_m (data_m v) = Some a" "blocks h a = Some xs"
      "length xs = unat (capacity_m v)" "a < next_addr h" "unat (size_m v) \<le> unat (capacity_m v)"
proof (cases "raw_ptr_m (data_m v)")
  case None
  with assms have "capacity_m v = 0" by (simp add: valid_def extent_def unat_eq_0)
  moreover from this assms have "size_m v = 0" by (simp add: valid_def)
  ultimately show ?thesis using None null by blast
next
  case (Some a)
  with assms obtain xs where "blocks h a = Some xs" "length xs = unat (capacity_m v)"
    by (auto simp: valid_def extent_def split: option.splits)
  moreover from assms Some have "a < next_addr h" by (simp add: valid_def allocated_def)
  moreover from assms have "unat (size_m v) \<le> unat (capacity_m v)"
    by (simp add: valid_def word_le_nat_alt)
  ultimately show ?thesis using Some block by blast
qed

lemma valid_block:
  "raw_ptr_m (data_m v) = Some a \<Longrightarrow> blocks h a = Some xs \<Longrightarrow> length xs = unat (capacity_m v) \<Longrightarrow>
   a < next_addr h \<Longrightarrow> size_m v \<le> capacity_m v \<Longrightarrow> valid h v"
  by (simp add: valid_def extent_def allocated_def)

lemma valid_length_elems:
  assumes "valid h v"
  shows "length (elems h v) = unat (size_m v)"
  using assms by (cases rule: valid_cases) (simp_all add: elems_def)

lemma unat_succ: "w + 1 \<noteq> 0 \<Longrightarrow> unat (w + 1) = Suc (unat w)"
  for w :: "'a::len word"
  using unatSuc [of w] by (simp add: add.commute)

lemma grown_capacity:
  fixes s c :: size_t
  assumes "s + 1 \<noteq> 0"
  shows "Suc (unat s) \<le> unat (if c \<noteq> 0 then max (s + 1) (2 * c) else 1) \<or> (c = 0 \<and> s \<noteq> 0)"
proof (cases "c = 0")
  case True
  then show ?thesis by (cases "s = 0") simp_all
next
  case False
  have "s + 1 \<le> max (s + 1) (2 * c)" by simp
  then have "unat (s + 1) \<le> unat (max (s + 1) (2 * c))" by (simp only: word_le_nat_alt)
  then show ?thesis using False assms by (simp add: unat_succ)
qed

lemma Erase_valid:
  assumes v: "valid h v" and p: "p < size_m v"
  shows "\<exists>h'. Erase T h v p = Inr (h', v\<lparr>size_m := size_m v - 1\<rparr>, p) \<and>
           valid h' (v\<lparr>size_m := size_m v - 1\<rparr>) \<and>
           elems h' (v\<lparr>size_m := size_m v - 1\<rparr>) =
             take (unat p) (elems h v) @ drop (unat p + 1) (elems h v) \<and>
           next_addr h' = next_addr h"
proof -
  have ps: "unat p < unat (size_m v)" using p by (simp add: word_less_nat_alt)
  then have s0: "size_m v \<noteq> 0" by auto
  have s1: "unat (size_m v - 1) = unat (size_m v) - 1" using s0 by (simp add: unat_minus_one)
  from v show ?thesis
  proof (cases rule: valid_cases)
    case null
    with s0 show ?thesis by simp
  next
    case (block a xs)
    let ?s = "unat (size_m v)"
    let ?p = "unat p"
    let ?n = "?s - (?p + 1)"
    let ?ys = "if ?n = 0 then xs
               else take ?p xs @ take ?n (drop (?p + 1) xs) @ [moved_from T (xs ! (?p + ?n))] @
                    drop (?p + ?n + 1) xs"
    let ?v = "v\<lparr>size_m := size_m v - 1\<rparr>"
    have len: "?p + 1 + ?n \<le> length xs" using ps block by simp
    have mv: "move T h (Some a) (?p + 1) ?n (Some a) ?p = Inr (set_block h a ?ys)"
      using block(2) len by (rule move_shift_block)
    have res: "Erase T h v p = Inr (set_block h a ?ys, ?v, p)"
      using p mv block(1) by (simp add: Erase_def begin_it_def Get_def)
    have leny: "length ?ys = length xs" using len by auto
    have le: "size_m v - 1 \<le> capacity_m v"
      using block(5) s1 by (simp add: word_le_nat_alt)
    have val: "valid (set_block h a ?ys) ?v"
      using block leny le by (intro valid_block [where a = a and xs = "?ys"]) simp_all
    have el: "elems (set_block h a ?ys) ?v = take (?s - 1) ?ys"
      using block(1) s1 by (simp add: elems_def)
    obtain m where m: "unat (size_m v) = Suc (unat p + m)"
      using ps less_iff_Suc_add by auto
    have "take (?s - 1) ?ys = take ?p (take ?s xs) @ drop (?p + 1) (take ?s xs)"
      using block(3,5) by (cases "m = 0") (auto simp: m min_def drop_take)
    then have "elems (set_block h a ?ys) ?v = take ?p (elems h v) @ drop (?p + 1) (elems h v)"
      using el block by (simp add: elems_block)
    with res val show ?thesis by auto
  qed
qed

lemma ReallocateAndMoveData_valid:
  assumes v: "valid h v" and k: "capacity_m v < k"
  shows "if alloc_limit h < unat k then ReallocateAndMoveData T h v k = Inl bad_alloc
         else (\<exists>h'. ReallocateAndMoveData T h v k =
                 Inr (h', v\<lparr>data_m := \<lparr>raw_ptr_m = Some (next_addr h)\<rparr>, capacity_m := k\<rparr>) \<and>
               valid h' (v\<lparr>data_m := \<lparr>raw_ptr_m = Some (next_addr h)\<rparr>, capacity_m := k\<rparr>) \<and>
               elems h' (v\<lparr>data_m := \<lparr>raw_ptr_m = Some (next_addr h)\<rparr>, capacity_m := k\<rparr>) = elems h v \<and>
               next_addr h' = Suc (next_addr h) \<and> alloc_limit h' = alloc_limit h)"
proof (cases "alloc_limit h < unat k")
  case True
  have "k \<noteq> 0" using k by auto
  then show ?thesis using True
    by (simp add: ReallocateAndMoveData_def ArrayPtr_ctor_def new_array_fail)
next
  case False
  let ?b = "next_addr h"
  let ?zs = "map (default_init T) [0..<unat k]"
  let ?h1 = "h\<lparr>blocks := (blocks h)(?b \<mapsto> ?zs), next_addr := Suc ?b\<rparr>"
  let ?v = "v\<lparr>data_m := \<lparr>raw_ptr_m = Some ?b\<rparr>, capacity_m := k\<rparr>"
  have k0: "k \<noteq> 0" using k by auto
  have ck: "unat (capacity_m v) < unat k" using k by (simp add: word_less_nat_alt)
  have sk: "size_m v \<le> k" using v k by (auto simp: valid_def)
  have ctor: "ArrayPtr_ctor T h k = Inr (?h1, \<lparr>raw_ptr_m = Some ?b\<rparr>)"
    using False k0 by (simp add: ArrayPtr_ctor_def new_array_ok)
  have mn: "min (size_m v) k = size_m v" using sk by (simp add: min_def)
  from v show ?thesis
  proof (cases rule: valid_cases)
    case null
    have "ReallocateAndMoveData T h v k = Inr (?h1, ?v)"
      using null ctor
      by (simp add: ReallocateAndMoveData_def ArrayPtr_swap_def ArrayPtr_dtor_def delete_array_def Let_def)
    moreover have "valid ?h1 ?v"
      using null sk by (simp add: valid_def extent_def allocated_def)
    moreover have "elems ?h1 ?v = elems h v"
      using null by (simp add: elems_def)
    ultimately show ?thesis using False by simp
  next
    case (block a xs)
    let ?s = "unat (size_m v)"
    let ?zs' = "take 0 ?zs @ take ?s (drop 0 xs) @ drop (0 + ?s) ?zs"
    let ?xs' = "take 0 xs @ map (moved_from T) (take ?s (drop 0 xs)) @ drop (0 + ?s) xs"
    let ?h2 = "set_block (set_block ?h1 ?b ?zs') a ?xs'"
    let ?h3 = "?h2\<lparr>blocks := (blocks ?h2)(a := None)\<rparr>"
    have ab: "a \<noteq> ?b" using block(4) by simp
    have mv: "move T ?h1 (Some a) 0 ?s (Some ?b) 0 = Inr ?h2"
      using block ab ck by (intro move_block) simp_all
    have del: "delete_array ?h2 (Some a) = Inr ?h3"
      by (rule delete_array_block [where xs = "?xs'"]) simp
    have "ReallocateAndMoveData T h v k = Inr (?h3, ?v)"
      using block(1) ctor mv del mn
      by (simp add: ReallocateAndMoveData_def ArrayPtr_swap_def ArrayPtr_dtor_def Let_def)
    moreover have "valid ?h3 ?v"
      using ab sk block ck by (simp add: valid_def extent_def allocated_def)
    moreover have "elems ?h3 ?v = elems h v"
      using ab block ck by (simp add: elems_def)
    ultimately show ?thesis using False by simp
  qed
qed

lemma Reserve_valid:
  assumes v: "valid h v"
  shows "if capacity_m v < k \<and> alloc_limit h < unat k then Reserve T h v k = Inl bad_alloc
         else (\<exists>h' v'. Reserve T h v k = Inr (h', v') \<and> valid h' v' \<and>
                 elems h' v' = elems h v \<and> size_m v' = size_m v \<and>
                 capacity_m v' = (if capacity_m v < k then k else capacity_m v) \<and>
                 alloc_limit h' = alloc_limit h)"
proof (cases "capacity_m v < k")
  case True
  show ?thesis
    using ReallocateAndMoveData_valid [OF v True, of T] True
    by (auto simp: Reserve_def split: if_splits)
next
  case False
  then show ?thesis using v by (simp add: Reserve_def)
qed

lemma PushBack_in_place:
  assumes v: "valid h v" and lt: "size_m v < capacity_m v"
  shows "\<exists>h'. PushBack T h v x = Inr (h', v\<lparr>size_m := size_m v + 1\<rparr>) \<and>
           valid h' (v\<lparr>size_m := size_m v + 1\<rparr>) \<and>
           elems h' (v\<lparr>size_m := size_m v + 1\<rparr>) = elems h v @ [x] \<and>
           next_addr h' = next_addr h \<and> alloc_limit h' = alloc_limit h"
proof -
  have lt': "unat (size_m v) < unat (capacity_m v)" using lt by (simp add: word_less_nat_alt)
  have le: "size_m v + 1 \<le> capacity_m v" using lt by (rule inc_le)
  have nz: "size_m v + 1 \<noteq> 0" using lt by unat_arith
  have s1: "unat (size_m v + 1) = Suc (unat (size_m v))" using nz by (rule unat_succ)
  from v show ?thesis
  proof (cases rule: valid_cases)
    case null
    with lt show ?thesis by simp
  next
    case (block a xs)
    let ?s = "unat (size_m v)"
    let ?v = "v\<lparr>size_m := size_m v + 1\<rparr>"
    have st: "store h (Some a) ?s x = Inr (set_block h a (xs[?s := x]))"
      using block lt' by (intro store_block) simp_all
    have "PushBack T h v x = Inr (set_block h a (xs[?s := x]), ?v)"
      using le block(1) st by (simp add: PushBack_def Let_def not_less [symmetric] leD)
    moreover have "valid (set_block h a (xs[?s := x])) ?v"
      using block le by (simp add: valid_def extent_def allocated_def)
    moreover have "elems (set_block h a (xs[?s := x])) ?v = elems h v @ [x]"
      using block lt' s1 by (simp add: elems_def take_Suc_conv_app_nth)
    ultimately show ?thesis by simp
  qed
qed

lemma PushBack_full:
  assumes v: "valid h v" and full: "size_m v = capacity_m v" and nz: "size_m v + 1 \<noteq> 0"
  shows "if alloc_limit h < unat (if capacity_m v \<noteq> 0 then max (size_m v + 1) (2 * capacity_m v) else 1)
         then PushBack T h v x = Inl bad_alloc
         else (\<exists>h' v'. PushBack T h v x = Inr (h', v') \<and> valid h' v' \<and>
                 size_m v' = size_m v + 1 \<and> elems h' v' = elems h v @ [x] \<and>
                 capacity_m v' = (if capacity_m v \<noteq> 0 then max (size_m v + 1) (2 * capacity_m v) else 1))"
proof -
  define nc where "nc = (if capacity_m v \<noteq> 0 then max (size_m v + 1) (2 * capacity_m v) else 1)"
  have gt: "capacity_m v < size_m v + 1"
    using full nz by (simp add: word_less_nat_alt unat_succ)
  have unf: "PushBack T h v x =
      bind (ReallocateAndMoveData T h v nc) (\<lambda>(h1, v1).
      bind (store h1 (raw_ptr_m (data_m v1)) (unat (size_m v1)) x) (\<lambda>h2.
      Inr (h2, v1\<lparr>size_m := size_m v + 1\<rparr>)))"
    unfolding PushBack_def Let_def nc_def using gt by simp
  have nc: "Suc (unat (size_m v)) \<le> unat nc"
    using grown_capacity [OF nz, of "capacity_m v"] full unfolding nc_def by auto
  then have lt: "capacity_m v < nc" using full by (simp add: word_less_nat_alt)
  have "if alloc_limit h < unat nc then PushBack T h v x = Inl bad_alloc
         else (\<exists>h' v'. PushBack T h v x = Inr (h', v') \<and> valid h' v' \<and>
                 size_m v' = size_m v + 1 \<and> elems h' v' = elems h v @ [x] \<and> capacity_m v' = nc)"
  proof (cases "alloc_limit h < unat nc")
    case True
    have "ReallocateAndMoveData T h v nc = Inl bad_alloc"
      using ReallocateAndMoveData_valid [OF v lt, of T] unfolding if_P [OF True] .
    then show ?thesis using True by (simp add: unf)
  next
    case False
    let ?v1 = "v\<lparr>data_m := \<lparr>raw_ptr_m = Some (next_addr h)\<rparr>, capacity_m := nc\<rparr>"
    obtain h1 where re: "ReallocateAndMoveData T h v nc = Inr (h1, ?v1)"
      and v1: "valid h1 ?v1" and e1: "elems h1 ?v1 = elems h v"
      using ReallocateAndMoveData_valid [OF v lt, of T] unfolding if_not_P [OF False] by blast
    have lt1: "size_m ?v1 < capacity_m ?v1" using nc by (simp add: word_less_nat_alt)
    obtain h' where pb: "PushBack T h1 ?v1 x = Inr (h', ?v1\<lparr>size_m := size_m ?v1 + 1\<rparr>)"
      and v': "valid h' (?v1\<lparr>size_m := size_m ?v1 + 1\<rparr>)"
      and e': "elems h' (?v1\<lparr>size_m := size_m ?v1 + 1\<rparr>) = elems h1 ?v1 @ [x]"
      using PushBack_in_place [OF v1 lt1, of T x] by blast
    have le1: "\<not> capacity_m ?v1 < size_m ?v1 + 1"
      using lt1 by (simp add: not_less inc_le)
    have "store h1 (raw_ptr_m (data_m ?v1)) (unat (size_m ?v1)) x = Inr h'"
      using pb le1 unfolding PushBack_def Let_def by (auto simp: bind_eq_Inr)
    then have "PushBack T h v x = Inr (h', ?v1\<lparr>size_m := size_m ?v1 + 1\<rparr>)"
      unfolding unf by (simp add: re)
    then have "\<exists>h' v'. PushBack T h v x = Inr (h', v') \<and> valid h' v' \<and>
                 size_m v' = size_m v + 1 \<and> elems h' v' = elems h v @ [x] \<and> capacity_m v' = nc"
      using v' e' e1 by (intro exI [of _ h'] exI [of _ "?v1\<lparr>size_m := size_m ?v1 + 1\<rparr>"]) simp
    then show ?thesis unfolding if_not_P [OF False] .
  qed
  then show ?thesis unfolding nc_def .
qed

lemma PushBack_valid:
  assumes v: "valid h v" and nm: "size_m v \<noteq> SIZE_MAX"
  shows "if size_m v = capacity_m v \<and>
            alloc_limit h < unat (if capacity_m v \<noteq> 0 then max (size_m v + 1) (2 * capacity_m v) else 1)
         then PushBack T h v x = Inl bad_alloc
         else (\<exists>h' v'. PushBack T h v x = Inr (h', v') \<and> valid h' v' \<and>
                 size_m v' = size_m v + 1 \<and> elems h' v' = elems h v @ [x] \<and>
                 capacity_m v' =
                   (if size_m v = capacity_m v
                    then (if capacity_m v \<noteq> 0 then max (size_m v + 1) (2 * capacity_m v) else 1)
                    else capacity_m v))"
proof (cases "size_m v = capacity_m v")
  case True
  have nz: "size_m v + 1 \<noteq> 0"
    using nm max_word_wrap [of "size_m v"] by (auto simp: SIZE_MAX_def)
  show ?thesis using PushBack_full [OF v True nz, of T x] True by (simp only: simp_thms if_True)
next
  case False
  have "size_m v \<le> capacity_m v" using v by (simp add: valid_def)
  then have lt: "size_m v < capacity_m v" using False by simp
  obtain h' where "PushBack T h v x = Inr (h', v\<lparr>size_m := size_m v + 1\<rparr>)"
    "valid h' (v\<lparr>size_m := size_m v + 1\<rparr>)"
    "elems h' (v\<lparr>size_m := size_m v + 1\<rparr>) = elems h v @ [x]"
    using PushBack_in_place [OF v lt, of T x] by blast
  then have "\<exists>h' v'. PushBack T h v x = Inr (h', v') \<and> valid h' v' \<and>
                 size_m v' = size_m v + 1 \<and> elems h' v' = elems h v @ [x] \<and>
                 capacity_m v' = capacity_m v"
    by (intro exI [of _ h'] exI [of _ "v\<lparr>size_m := size_m v + 1\<rparr>"]) simp
  then show ?thesis using False by (simp only: simp_thms if_False)
qed

lemma PushBack_all_in_place:
  "valid h v \<Longrightarrow> unat (size_m v) + length xs \<le> unat (capacity_m v) \<Longrightarrow>
   \<exists>h' v'. PushBack_all T h v xs = Inr (h', v') \<and> valid h' v' \<and>
     capacity_m v' = capacity_m v \<and> data_m v' = data_m v \<and> next_addr h' = next_addr h \<and>
     elems h' v' = elems h v @ xs"
proof (induction xs arbitrary: h v)
  case Nil
  then show ?case by simp
next
  case (Cons x xs)
  have lt: "size_m v < capacity_m v" using Cons.prems(2) by (simp add: word_less_nat_alt)
  then have nz: "size_m v + 1 \<noteq> 0" by unat_arith
  let ?v = "v\<lparr>size_m := size_m v + 1\<rparr>"
  obtain h1 where pb: "PushBack T h v x = Inr (h1, ?v)" and v1: "valid h1 ?v"
    and e1: "elems h1 ?v = elems h v @ [x]" and n1: "next_addr h1 = next_addr h"
    using PushBack_in_place [OF Cons.prems(1) lt, of T x] by blast
  have "unat (size_m ?v) + length xs \<le> unat (capacity_m ?v)"
    using Cons.prems(2) nz by (simp add: unat_succ)
  from Cons.IH [OF v1 this] obtain h' v' where
    "PushBack_all T h1 ?v xs = Inr (h', v')" "valid h' v'" "capacity_m v' = capacity_m ?v"
    "data_m v' = data_m ?v" "next_addr h' = next_addr h1" "elems h' v' = elems h1 ?v @ xs"
    by blast
  then show ?case using pb e1 n1 by simp
qed

lemma unat_max: "unat (max a b) = max (unat a) (unat b)"
  for a b :: "'a::len word"
  by (simp add: max_def word_le_nat_alt)

lemma narrow_of_nat:
  assumes "k < 2 ^ 31"
  shows "(scast (ucast (of_nat k :: 64 word) :: 32 word) :: 64 word) = of_nat k"
proof -
  have 1: "take_bit 64 k = k" using assms by (simp add: take_bit_nat_eq_self)
  have 2: "signed_take_bit 31 (int k) = int k"
    using assms by (intro signed_take_bit_int_eq_self) simp_all
  show ?thesis by (simp add: unsigned_of_nat signed_of_nat 1 2)
qed

lemma narrow_id: "unat m < 2 ^ 31 \<Longrightarrow> (scast (ucast m :: 32 word) :: 64 word) = m"
  for m :: "64 word"
  using narrow_of_nat [of "unat m"] by simp

lemma Resize_valid:
  assumes v: "valid h v"
    and small: "capacity_m v < n \<Longrightarrow> max (unat n) (2 * unat (capacity_m v)) < 2 ^ 31"
  shows "if capacity_m v < n \<and> alloc_limit h < max (unat n) (2 * unat (capacity_m v))
         then Resize T h v n = Inl bad_alloc
         else (\<exists>h' v'. Resize T h v n = Inr (h', v') \<and> valid h' v' \<and> size_m v' = n \<and>
                 unat (capacity_m v') =
                   (if capacity_m v < n then max (unat n) (2 * unat (capacity_m v))
                    else unat (capacity_m v)) \<and>
                 elems h' v' =
                   take (unat n) (elems h v) @ replicate (unat n - unat (size_m v)) (value_init T))"
proof -
  let ?s = "unat (size_m v)"
  let ?n = "unat n"
  let ?vi = "value_init T"
  let ?post = "\<lambda>h' v' c. Resize T h v n = Inr (h', v') \<and> valid h' v' \<and> size_m v' = n \<and>
      unat (capacity_m v') = c \<and> elems h' v' = take ?n (elems h v) @ replicate (?n - ?s) ?vi"
  have sc: "?s \<le> unat (capacity_m v)" using v by (simp add: valid_def word_le_nat_alt)
  consider (shrink) "n \<le> size_m v" | (in_place) "\<not> n \<le> size_m v" "n \<le> capacity_m v"
    | (grow) "\<not> n \<le> size_m v" "capacity_m v < n" by fastforce
  then show ?thesis
  proof cases
    case shrink
    then have ns: "?n \<le> ?s" by (simp add: word_le_nat_alt)
    then have nc: "\<not> capacity_m v < n" using sc by (simp add: word_less_nat_alt)
    let ?v = "v\<lparr>size_m := n\<rparr>"
    have "Resize T h v n = Inr (h, ?v)" using shrink by (simp add: Resize_def)
    moreover have "valid h ?v"
      using v shrink by (auto simp: valid_def)
    moreover have "elems h ?v = take ?n (elems h v) @ replicate (?n - ?s) ?vi"
      using ns by (simp add: elems_def min_def split: option.splits)
    ultimately have "?post h ?v (unat (capacity_m v))" by simp
    then show ?thesis using nc by auto
  next
    case in_place
    then have ns: "?s < ?n" and nc: "?n \<le> unat (capacity_m v)"
      by (simp_all add: word_le_nat_alt not_le)
    have ng: "\<not> capacity_m v < n" using in_place(2) by simp
    from v show ?thesis
    proof (cases rule: valid_cases)
      case null
      with nc ns show ?thesis by simp
    next
      case (block a xs)
      define ys where "ys = take ?s xs @ replicate (?n - ?s) ?vi @ drop (?s + (?n - ?s)) xs"
      let ?v = "v\<lparr>size_m := n\<rparr>"
      have fl: "fill h (Some a) ?s (?n - ?s) ?vi = Inr (set_block h a ys)"
        unfolding ys_def using block(2) by (rule fill_block) (use ns nc block(3) in simp)
      have ly: "length ys = length xs" using ns nc block(3) by (simp add: ys_def)
      have res: "Resize T h v n = Inr (set_block h a ys, ?v)"
        using in_place block(1) fl by (simp add: Resize_def)
      have val: "valid (set_block h a ys) ?v"
        using block ly in_place(2) by (simp add: valid_def extent_def allocated_def)
      have "take ?n ys = take ?s xs @ replicate (?n - ?s) ?vi"
        using ns nc block(3) by (simp add: ys_def)
      then have el: "elems (set_block h a ys) ?v = take ?n (elems h v) @ replicate (?n - ?s) ?vi"
        using block(1,2) ns by (simp add: elems_def min_def)
      have "?post (set_block h a ys) ?v (unat (capacity_m v))" using res val el by simp
      then show ?thesis using ng by auto
    qed
  next
    case grow
    define m where "m = max n (capacity_m v * 2)"
    have lim: "max ?n (2 * unat (capacity_m v)) < 2 ^ 31" using small grow(2) by simp
    have "unat (capacity_m v) * unat (2 :: size_t) < 2 ^ LENGTH(64)" using lim by simp
    then have "unat (capacity_m v * 2) = unat (capacity_m v) * unat (2 :: size_t)"
      by (simp only: unat_mult_lem)
    then have mm: "unat m = max ?n (2 * unat (capacity_m v))"
      by (simp add: m_def unat_max mult.commute)
    have cn: "unat (capacity_m v) < ?n" using grow(2) by (simp add: word_less_nat_alt)
    have nm: "?n \<le> unat m" using mm by simp
    have m0: "m \<noteq> 0" using nm cn by auto
    have nid: "(scast (ucast (max n (capacity_m v * 2)) :: 32 word) :: size_t) = m"
      using narrow_id [of m] mm lim by (simp add: m_def)
    have c2: "\<not> n \<le> capacity_m v" using grow(2) by simp
    have unf: "Resize T h v n =
         bind (ArrayPtr_ctor T h m) (\<lambda>(h1, new_array).
         bind (move T h1 (raw_ptr_m (data_m v)) 0 ?s (raw_ptr_m new_array) 0) (\<lambda>h2.
         bind (fill h2 (raw_ptr_m new_array) ?s (?n - ?s) ?vi) (\<lambda>h3.
         (let (d, old) = ArrayPtr_swap (data_m v) new_array in
          bind (ArrayPtr_dtor h3 old) (\<lambda>h4.
          Inr (h4, v\<lparr>data_m := d, capacity_m := m, size_m := n\<rparr>))))))"
      unfolding Resize_def Let_def if_not_P [OF grow(1)] if_not_P [OF c2] nid by simp
    have "if alloc_limit h < unat m then Resize T h v n = Inl bad_alloc
          else (\<exists>h' v'. ?post h' v' (unat m))"
    proof (cases "alloc_limit h < unat m")
      case True
      then show ?thesis using m0 by (simp add: unf ArrayPtr_ctor_def new_array_fail)
    next
      case False
      let ?b = "next_addr h"
      let ?v = "v\<lparr>data_m := \<lparr>raw_ptr_m = Some ?b\<rparr>, capacity_m := m, size_m := n\<rparr>"
      define zs where "zs = map (default_init T) [0..<unat m]"
      define h1 where "h1 = h\<lparr>blocks := (blocks h)(?b \<mapsto> zs), next_addr := Suc ?b\<rparr>"
      have ctor: "ArrayPtr_ctor T h m = Inr (h1, \<lparr>raw_ptr_m = Some ?b\<rparr>)"
        using False m0 by (simp add: ArrayPtr_ctor_def new_array_ok h1_def zs_def)
      have lz: "length zs = unat m" by (simp add: zs_def)
      have h1b: "blocks h1 ?b = Some zs" by (simp add: h1_def)
      have le: "n \<le> m" by (simp add: m_def)
      from v have "\<exists>h' v'. ?post h' v' (unat m)"
      proof (cases rule: valid_cases)
        case null
        define zs2 where "zs2 = take 0 zs @ replicate ?n ?vi @ drop (0 + ?n) zs"
        have s0: "?s = 0" using null by simp
        have fl: "fill h1 (Some ?b) 0 ?n ?vi = Inr (set_block h1 ?b zs2)"
          unfolding zs2_def using h1b by (rule fill_block) (use nm lz in simp)
        have res: "Resize T h v n = Inr (set_block h1 ?b zs2, ?v)"
          unfolding unf using null s0 fl
          by (simp add: ctor ArrayPtr_swap_def ArrayPtr_dtor_def delete_array_def)
        have lz2: "length zs2 = unat m" using nm lz by (simp add: zs2_def)
        have val: "valid (set_block h1 ?b zs2) ?v"
          using le lz2 by (simp add: valid_def extent_def allocated_def h1_def)
        have "take ?n zs2 = replicate ?n ?vi" using nm lz by (simp add: zs2_def)
        then have el: "elems (set_block h1 ?b zs2) ?v = take ?n (elems h v) @ replicate (?n - ?s) ?vi"
          using null s0 by (simp add: elems_def)
        show ?thesis using res val el
          by (intro exI [of _ "set_block h1 ?b zs2"] exI [of _ ?v]) simp
      next
        case (block a xs)
        define zs1 where "zs1 = take 0 zs @ take ?s (drop 0 xs) @ drop (0 + ?s) zs"
        define xs1 where "xs1 = take 0 xs @ map (moved_from T) (take ?s (drop 0 xs)) @ drop (0 + ?s) xs"
        define zs2 where "zs2 = take ?s zs1 @ replicate (?n - ?s) ?vi @ drop (?s + (?n - ?s)) zs1"
        define h2 where "h2 = set_block (set_block h1 ?b zs1) a xs1"
        define h3 where "h3 = set_block h2 ?b zs2"
        define h4 where "h4 = h3\<lparr>blocks := (blocks h3)(a := None)\<rparr>"
        have ab: "a \<noteq> ?b" using block(4) by simp
        have h1a: "blocks h1 a = Some xs" using ab block(2) by (simp add: h1_def)
        have sn: "?s < ?n" using sc cn by simp
        have mv: "move T h1 (Some a) 0 ?s (Some ?b) 0 = Inr h2"
          unfolding h2_def zs1_def xs1_def using h1a h1b ab
          by (rule move_block) (use sc sn nm block(3) lz in simp_all)
        have lz1: "length zs1 = unat m" using sc sn nm block(3) lz by (simp add: zs1_def)
        have h2b: "blocks h2 ?b = Some zs1" using ab by (simp add: h2_def)
        have fl: "fill h2 (Some ?b) ?s (?n - ?s) ?vi = Inr h3"
          unfolding h3_def zs2_def using h2b by (rule fill_block) (use sn nm lz1 in simp)
        have h3a: "blocks h3 a = Some xs1" using ab by (simp add: h3_def h2_def)
        have del: "delete_array h3 (Some a) = Inr h4"
          unfolding h4_def using h3a by (rule delete_array_block)
        let ?v' = "v\<lparr>data_m := (data_m v)\<lparr>raw_ptr_m := Some ?b\<rparr>, capacity_m := m, size_m := n\<rparr>"
        have "Resize T h v n = Inr (h4, ?v')"
          unfolding unf
          by (simp only: ctor bind_Inr prod.case block(1) ArrayPtr.simps mv fl
                ArrayPtr_swap_def Let_def ArrayPtr_dtor_def del)
        moreover have "?v' = ?v" by simp
        ultimately have res: "Resize T h v n = Inr (h4, ?v)" by (simp only:)
        have lz2: "length zs2 = unat m" using sn nm lz1 by (simp add: zs2_def)
        have h4b: "blocks h4 ?b = Some zs2" using ab by (simp add: h4_def h3_def)
        have h4n: "next_addr h4 = Suc ?b" by (simp add: h4_def h3_def h2_def h1_def)
        have val: "valid h4 ?v"
          using le lz2 h4b h4n by (simp add: valid_def extent_def allocated_def)
        have "take ?n zs2 = take ?s xs @ replicate (?n - ?s) ?vi"
          using sc sn nm block(3) lz by (simp add: zs2_def zs1_def)
        then have el: "elems h4 ?v = take ?n (elems h v) @ replicate (?n - ?s) ?vi"
          using block(1,2) h4b sn by (simp add: elems_def min_def)
        show ?thesis using res val el by (intro exI [of _ h4] exI [of _ ?v]) simp
      qed
      then show ?thesis unfolding if_not_P [OF False] .
    qed
    then have "if alloc_limit h < max ?n (2 * unat (capacity_m v)) then Resize T h v n = Inl bad_alloc
          else (\<exists>h' v'. ?post h' v' (max ?n (2 * unat (capacity_m v))))"
      unfolding mm .
    then show ?thesis using grow(2) by simp
  qed
qed

lemma valid_SIZE_MAX:
  assumes v: "valid h v" and mx: "size_m v = SIZE_MAX"
  obtains a xs where "raw_ptr_m (data_m v) = Some a" "blocks h a = Some xs"
    "length xs = unat (size_m v)" "capacity_m v = size_m v"
proof -
  have "size_m v \<le> capacity_m v" using v by (simp add: valid_def)
  then have c: "capacity_m v = size_m v" using mx by (simp add: SIZE_MAX_def word_order.extremum_unique)
  from v show ?thesis
  proof (cases rule: valid_cases)
    case null
    then have "SIZE_MAX = (0 :: size_t)" using mx by simp
    then show ?thesis by (simp add: SIZE_MAX_def)
  next
    case (block a xs)
    then show ?thesis using that c by simp
  qed
qed

lemma PushBack_SIZE_MAX:
  assumes v: "valid h v" and mx: "size_m v = SIZE_MAX"
  shows "PushBack T h v x = Inl undefined_behaviour"
proof -
  obtain a xs where b: "raw_ptr_m (data_m v) = Some a" "blocks h a = Some xs"
    "length xs = unat (size_m v)" "capacity_m v = size_m v"
    using valid_SIZE_MAX [OF v mx] .
  have z: "size_m v + 1 = 0" using mx by (simp add: SIZE_MAX_def)
  show ?thesis using b by (simp add: PushBack_def Let_def z store_def)
qed

lemma Insert_SIZE_MAX:
  assumes v: "valid h v" and mx: "size_m v = SIZE_MAX"
  shows "Insert T h v p x = Inl undefined_behaviour"
proof -
  obtain a xs where b: "raw_ptr_m (data_m v) = Some a" "blocks h a = Some xs"
    "length xs = unat (size_m v)" "capacity_m v = size_m v"
    using valid_SIZE_MAX [OF v mx] .
  have z: "size_m v + 1 = 0" using mx by (simp add: SIZE_MAX_def)
  have p: "p \<le> size_m v" using mx by (simp add: SIZE_MAX_def)
  then have ps: "unat p \<le> unat (size_m v)" by (simp add: word_le_nat_alt)
  let ?s = "unat (size_m v)"
  let ?p = "unat p"
  have "bind (copy_backward h (Some a) ?p (?s - ?p) (Some a) (?p + 1)) (\<lambda>h1.
        bind (store h1 (Some a) ?p x) (\<lambda>h2. Inr (h2, v\<lparr>size_m := size_m v + 1\<rparr>, p))) =
        Inl undefined_behaviour"
  proof (cases "?s - ?p")
    case 0
    then have "?p = ?s" using ps by simp
    then show ?thesis using 0 b by (simp add: store_def)
  next
    case (Suc n)
    then have i: "?p + n < length xs" "\<not> ?p + 1 + n < length xs" using b(3) by simp_all
    have "load h (Some a) (?p + n) = Inr (xs ! (?p + n))" using b(2) i(1) by (rule load_block)
    moreover have "store h (Some a) (?p + 1 + n) (xs ! (?p + n)) = Inl undefined_behaviour"
      using b(2) i(2) by (simp add: store_def)
    ultimately show ?thesis using Suc by simp
  qed
  then show ?thesis using p b(1) by (simp add: Insert_def Let_def z Get_def)
qed

lemma store_valid:
  assumes "valid h v" and "store h (raw_ptr_m (data_m v)) i x = Inr h'"
  shows "valid h' v"
  using assms
  by (auto simp: store_def valid_def extent_def allocated_def split: option.splits if_splits)

lemma SimpleVector_ctor_value_valid:
  "if alloc_limit h < unat n then SimpleVector_ctor_value T h n x = Inl bad_alloc
   else (\<exists>h' v'. SimpleVector_ctor_value T h n x = Inr (h', v') \<and> valid h' v' \<and>
           size_m v' = n \<and> capacity_m v' = n \<and> elems h' v' = replicate (unat n) x)"
proof (cases "n = 0")
  case True
  let ?v = "\<lparr>size_m = 0, capacity_m = 0, data_m = \<lparr>raw_ptr_m = None\<rparr>\<rparr>"
  have "SimpleVector_ctor_value T h n x = Inr (h, ?v)"
    using True by (simp add: SimpleVector_ctor_value_def ArrayPtr_ctor_def Get_def)
  moreover have "valid h ?v" by (simp add: valid_def extent_def allocated_def)
  moreover have "elems h ?v = replicate (unat n) x" using True by (simp add: elems_def)
  ultimately show ?thesis using True by simp
next
  case False
  show ?thesis
  proof (cases "alloc_limit h < unat n")
    case True
    then show ?thesis using False
      by (simp add: SimpleVector_ctor_value_def ArrayPtr_ctor_def new_array_fail)
  next
    case lim: False
    let ?b = "next_addr h"
    let ?v = "\<lparr>size_m = n, capacity_m = n, data_m = \<lparr>raw_ptr_m = Some ?b\<rparr>\<rparr>"
    define zs where "zs = map (default_init T) [0..<unat n]"
    define zs1 where "zs1 = take 0 zs @ replicate (unat n) x @ drop (0 + unat n) zs"
    define h1 where "h1 = h\<lparr>blocks := (blocks h)(?b \<mapsto> zs), next_addr := Suc ?b\<rparr>"
    have ctor: "ArrayPtr_ctor T h n = Inr (h1, \<lparr>raw_ptr_m = Some ?b\<rparr>)"
      using lim False by (simp add: ArrayPtr_ctor_def new_array_ok h1_def zs_def)
    have h1b: "blocks h1 ?b = Some zs" by (simp add: h1_def)
    have lz: "length zs = unat n" by (simp add: zs_def)
    have fl: "fill h1 (Some ?b) 0 (unat n) x = Inr (set_block h1 ?b zs1)"
      unfolding zs1_def using h1b by (rule fill_block) (simp add: lz)
    have res: "SimpleVector_ctor_value T h n x = Inr (set_block h1 ?b zs1, ?v)"
      unfolding SimpleVector_ctor_value_def
      by (simp only: ctor bind_Inr prod.case Get_def ArrayPtr.simps fl)
    have z1: "zs1 = replicate (unat n) x" using lz by (simp add: zs1_def)
    have val: "valid (set_block h1 ?b zs1) ?v"
      using z1 by (simp add: valid_def extent_def allocated_def h1_def)
    have el: "elems (set_block h1 ?b zs1) ?v = replicate (unat n) x"
      using z1 by (simp add: elems_def)
    have "\<exists>h' v'. SimpleVector_ctor_value T h n x = Inr (h', v') \<and> valid h' v' \<and>
           size_m v' = n \<and> capacity_m v' = n \<and> elems h' v' = replicate (unat n) x"
      using res val el by (intro exI [of _ "set_block h1 ?b zs1"] exI [of _ ?v]) simp
    then show ?thesis unfolding if_not_P [OF lim] .
  qed
qed

lemma SimpleVector_ctor_size_value:
  "SimpleVector_ctor_size T h n = SimpleVector_ctor_value T h n (value_init T)"
  by (simp add: SimpleVector_ctor_size_def SimpleVector_ctor_value_def)

lemma SimpleVector_ctor_init_valid:
  assumes len: "length init < 2 ^ 64"
  shows "if alloc_limit h < length init then SimpleVector_ctor_init T h init = Inl bad_alloc
   else (\<exists>h' v'. SimpleVector_ctor_init T h init = Inr (h', v') \<and> valid h' v' \<and>
           unat (size_m v') = length init \<and> capacity_m v' = size_m v' \<and> elems h' v' = init)"
proof -
  define n :: size_t where "n = of_nat (length init)"
  have un: "unat n = length init"
    unfolding n_def using len by (simp add: unat_of_nat)
  show ?thesis
  proof (cases "n = 0")
    case True
    then have i: "init = []" using un by simp
    let ?v = "\<lparr>size_m = 0, capacity_m = 0, data_m = \<lparr>raw_ptr_m = None\<rparr>\<rparr>"
    have "SimpleVector_ctor_init T h init = Inr (h, ?v)"
      using i by (simp add: SimpleVector_ctor_init_def ArrayPtr_ctor_def Get_def)
    moreover have "valid h ?v" by (simp add: valid_def extent_def allocated_def)
    moreover have "elems h ?v = init" using i by (simp add: elems_def)
    ultimately show ?thesis using i by simp
  next
    case False
    show ?thesis
    proof (cases "alloc_limit h < length init")
      case True
      then show ?thesis using False un
        by (simp add: SimpleVector_ctor_init_def ArrayPtr_ctor_def new_array_fail n_def [symmetric])
    next
      case lim: False
      let ?b = "next_addr h"
      let ?v = "\<lparr>size_m = n, capacity_m = n, data_m = \<lparr>raw_ptr_m = Some ?b\<rparr>\<rparr>"
      define zs where "zs = map (default_init T) [0..<unat n]"
      define zs1 where "zs1 = take 0 zs @ init @ drop (0 + length init) zs"
      define h1 where "h1 = h\<lparr>blocks := (blocks h)(?b \<mapsto> zs), next_addr := Suc ?b\<rparr>"
      have ctor: "ArrayPtr_ctor T h n = Inr (h1, \<lparr>raw_ptr_m = Some ?b\<rparr>)"
        using lim False un by (simp add: ArrayPtr_ctor_def new_array_ok h1_def zs_def)
      have h1b: "blocks h1 ?b = Some zs" by (simp add: h1_def)
      have lz: "length zs = length init" by (simp add: zs_def un)
      have cp: "copy_list h1 init (Some ?b) 0 = Inr (set_block h1 ?b zs1)"
        unfolding zs1_def using h1b by (rule copy_list_block) (simp add: lz)
      have res: "SimpleVector_ctor_init T h init = Inr (set_block h1 ?b zs1, ?v)"
        unfolding SimpleVector_ctor_init_def n_def [symmetric]
        by (simp only: ctor bind_Inr prod.case Get_def ArrayPtr.simps cp)
      have z1: "zs1 = init" using lz by (simp add: zs1_def)
      have val: "valid (set_block h1 ?b zs1) ?v"
        using z1 un by (simp add: valid_def extent_def allocated_def h1_def)
      have el: "elems (set_block h1 ?b zs1) ?v = init"
        using z1 un by (simp add: elems_def)
      have "\<exists>h' v'. SimpleVector_ctor_init T h init = Inr (h', v') \<and> valid h' v' \<and>
           unat (size_m v') = length init \<and> capacity_m v' = size_m v' \<and> elems h' v' = init"
        using res val el un by (intro exI [of _ "set_block h1 ?b zs1"] exI [of _ ?v]) simp
      then show ?thesis unfolding if_not_P [OF lim] .
    qed
  qed
qed

lemma insert_in_place_list:
  assumes "p \<le> s" "s < length xs"
  shows "take (Suc s) ((take (p + 1) xs @ take (s - p) (drop p xs) @ drop (p + (s - p) + 1) xs)[p := x]) =
         take p (take s xs) @ [x] @ drop p (take s xs)"
proof -
  have p: "p < length xs" using assms by simp
  have "(take (p + 1) xs @ take (s - p) (drop p xs) @ drop (p + (s - p) + 1) xs)[p := x] =
        take p xs @ [x] @ take (s - p) (drop p xs) @ drop (p + (s - p) + 1) xs"
    using p by (simp add: take_Suc_conv_app_nth list_update_append)
  moreover have "length (take p xs @ [x] @ take (s - p) (drop p xs)) = Suc s"
    using assms by simp
  ultimately have "take (Suc s) ((take (p + 1) xs @ take (s - p) (drop p xs) @ drop (p + (s - p) + 1) xs)[p := x]) =
        take p xs @ [x] @ take (s - p) (drop p xs)"
    by (metis append.assoc append_eq_conv_conj)
  moreover have "take p (take s xs) = take p xs" using assms by (simp add: min_def)
  moreover have "drop p (take s xs) = take (s - p) (drop p xs)" by (simp add: drop_take)
  ultimately show ?thesis by simp
qed

lemma insert_realloc_list:
  assumes "p \<le> s" "s \<le> length xs" "s < length zs"
  shows "take (Suc s)
           (take (p + 1) ((take 0 zs @ take p (drop 0 xs) @ drop (0 + p) zs)[p := x]) @
            take (s - p) (drop p xs) @
            drop (p + 1 + (s - p)) ((take 0 zs @ take p (drop 0 xs) @ drop (0 + p) zs)[p := x])) =
         take p (take s xs) @ [x] @ drop p (take s xs)"
proof -
  have p: "p \<le> length xs" "p < length zs" using assms by simp_all
  have 1: "(take 0 zs @ take p (drop 0 xs) @ drop (0 + p) zs)[p := x] = take p xs @ x # drop (Suc p) zs"
    using p by (simp add: list_update_append Cons_nth_drop_Suc [symmetric])
  have 2: "take (p + 1) (take p xs @ x # drop (Suc p) zs) = take p xs @ [x]"
    using p by simp
  have 3: "length (take p xs @ [x] @ take (s - p) (drop p xs)) = Suc s"
    using assms by simp
  have "take (Suc s)
           (take (p + 1) ((take 0 zs @ take p (drop 0 xs) @ drop (0 + p) zs)[p := x]) @
            take (s - p) (drop p xs) @
            drop (p + 1 + (s - p)) ((take 0 zs @ take p (drop 0 xs) @ drop (0 + p) zs)[p := x])) =
        take p xs @ [x] @ take (s - p) (drop p xs)"
    unfolding 1 2 using 3 by (metis append.assoc append_eq_conv_conj)
  moreover have "take p (take s xs) = take p xs" using assms by (simp add: min_def)
  moreover have "drop p (take s xs) = take (s - p) (drop p xs)" by (simp add: drop_take)
  ultimately show ?thesis by simp
qed

lemma Insert_valid:
  assumes v: "valid h v" and p: "p \<le> size_m v" and nz: "size_m v + 1 \<noteq> 0"
  shows "if size_m v = capacity_m v \<and>
            alloc_limit h < unat (if capacity_m v \<noteq> 0 then max (size_m v + 1) (2 * capacity_m v) else 1)
         then Insert T h v p x = Inl bad_alloc
         else (\<exists>h' v'. Insert T h v p x = Inr (h', v', p) \<and> valid h' v' \<and>
                 size_m v' = size_m v + 1 \<and>
                 elems h' v' = take (unat p) (elems h v) @ [x] @ drop (unat p) (elems h v))"
proof -
  let ?s = "unat (size_m v)"
  let ?p = "unat p"
  let ?nc = "if capacity_m v \<noteq> 0 then max (size_m v + 1) (2 * capacity_m v) else 1"
  have s1: "unat (size_m v + 1) = Suc ?s" using nz by (rule unat_succ)
  have ps: "?p \<le> ?s" using p by (simp add: word_le_nat_alt)
  have sc: "?s \<le> unat (capacity_m v)" using v by (simp add: valid_def word_le_nat_alt)
  show ?thesis
  proof (cases "size_m v + 1 \<le> capacity_m v")
    case True
    then have lt: "?s < unat (capacity_m v)" using s1 by (simp add: word_le_nat_alt)
    then have ne: "size_m v \<noteq> capacity_m v" by auto
    from v show ?thesis
    proof (cases rule: valid_cases)
      case null
      with lt show ?thesis by simp
    next
      case (block a xs)
      let ?xs1 = "take (?p + 1) xs @ take (?s - ?p) (drop ?p xs) @ drop (?p + (?s - ?p) + 1) xs"
      let ?h = "set_block h a (?xs1[?p := x])"
      let ?v = "v\<lparr>size_m := size_m v + 1\<rparr>"
      have cb: "copy_backward h (Some a) ?p (?s - ?p) (Some a) (?p + 1) = Inr (set_block h a ?xs1)"
        using block(2) by (rule copy_backward_block) (use ps lt block(3) in simp)
      have len1: "length ?xs1 = length xs" using ps lt block(3) by simp
      have st: "store (set_block h a ?xs1) (Some a) ?p x = Inr ?h"
        using store_block [of "set_block h a ?xs1" a ?xs1 ?p x] ps lt block(3) len1 by simp
      have res: "Insert T h v p x = Inr (?h, ?v, p)"
        using p True block(1) cb st by (simp add: Insert_def Let_def Get_def)
      have val: "valid ?h ?v"
        using block True len1 by (simp add: valid_def extent_def allocated_def)
      have "elems ?h ?v = take (Suc ?s) (?xs1[?p := x])"
        using block(1) s1 by (simp add: elems_def)
      also have "\<dots> = take ?p (take ?s xs) @ [x] @ drop ?p (take ?s xs)"
        using ps lt block(3) by (intro insert_in_place_list) simp_all
      finally have el: "elems ?h ?v = take ?p (elems h v) @ [x] @ drop ?p (elems h v)"
        using block(1,2) by (simp only: elems_block)
      show ?thesis using ne res val el by auto
    qed
  next
    case False
    define nc where "nc = (if capacity_m v \<noteq> 0 then max (size_m v + 1) (2 * capacity_m v) else 1)"
    have unf: "Insert T h v p x =
      bind (ArrayPtr_ctor T h nc) (\<lambda>(h1, new_data).
      bind (copy h1 (Get (data_m v)) 0 (unat p) (Get new_data) 0) (\<lambda>h2.
      bind (store h2 (raw_ptr_m new_data) (unat p) x) (\<lambda>h3.
      bind (copy h3 (Get (data_m v)) (unat p) (unat (size_m v) - unat p)
              (Get new_data) (unat p + 1)) (\<lambda>h4.
      (let (d, nd) = ArrayPtr_swap (data_m v) new_data in
       bind (ArrayPtr_dtor h4 nd) (\<lambda>h5.
       Inr (h5, v\<lparr>data_m := d, capacity_m := nc, size_m := size_m v + 1\<rparr>, p)))))))"
      unfolding Insert_def Let_def nc_def using p False by simp
    from False have "\<not> Suc ?s \<le> unat (capacity_m v)" using s1 by (simp add: word_le_nat_alt)
    then have eqn: "?s = unat (capacity_m v)" using sc by simp
    then have eq: "size_m v = capacity_m v" by (simp add: word_unat_eq_iff)
    have nc: "Suc ?s \<le> unat nc"
      using grown_capacity [OF nz, of "capacity_m v"] eq unfolding nc_def by auto
    then have "0 < unat nc" by linarith
    then have nc0: "nc \<noteq> 0" by (rule unat_gt_0 [THEN iffD1])
    have "if alloc_limit h < unat nc then Insert T h v p x = Inl bad_alloc
          else (\<exists>h' v'. Insert T h v p x = Inr (h', v', p) \<and> valid h' v' \<and>
                 size_m v' = size_m v + 1 \<and>
                 elems h' v' = take (unat p) (elems h v) @ [x] @ drop (unat p) (elems h v))"
    proof (cases "alloc_limit h < unat nc")
      case True
      have "Insert T h v p x = Inl bad_alloc"
        unfolding unf using nc0 True by (simp add: ArrayPtr_ctor_def new_array_fail)
      then show ?thesis using True by simp
    next
      case lim: False
      let ?b = "next_addr h"
      let ?zs = "map (default_init T) [0..<unat nc]"
      let ?h1 = "h\<lparr>blocks := (blocks h)(?b \<mapsto> ?zs), next_addr := Suc ?b\<rparr>"
      let ?v = "v\<lparr>data_m := \<lparr>raw_ptr_m = Some ?b\<rparr>, capacity_m := nc, size_m := size_m v + 1\<rparr>"
      have ctor: "ArrayPtr_ctor T h nc = Inr (?h1, \<lparr>raw_ptr_m = Some ?b\<rparr>)"
        using lim nc0 by (simp add: ArrayPtr_ctor_def new_array_ok)
      have le: "size_m v + 1 \<le> nc" using nc s1 by (simp only: word_le_nat_alt)
      from v show ?thesis
      proof (cases rule: valid_cases)
        case null
        then have p0: "p = 0" using p by simp
        let ?h2 = "set_block ?h1 ?b (?zs[0 := x])"
        have st: "store ?h1 (Some ?b) 0 x = Inr ?h2"
          using nc by (intro store_block) simp_all
        have res: "Insert T h v p x = Inr (?h2, ?v, p)"
          unfolding unf using null p0 ctor st
          by (simp add: Get_def ArrayPtr_swap_def ArrayPtr_dtor_def delete_array_def)
        have val: "valid ?h2 ?v"
          using le by (simp add: valid_def extent_def allocated_def)
        have el: "elems ?h2 ?v = [x]"
          using null nc by (simp add: elems_def take_Suc_conv_app_nth)
        show ?thesis using lim res val el null p0 by (simp add: elems_null)
      next
        case (block a xs)
        define zs where "zs = map (default_init T) [0..<unat nc]"
        define zs1 where "zs1 = take 0 zs @ take ?p (drop 0 xs) @ drop (0 + ?p) zs"
        define zs2 where "zs2 = zs1[?p := x]"
        define zs3 where "zs3 = take (?p + 1) zs2 @ take (?s - ?p) (drop ?p xs) @
                                  drop (?p + 1 + (?s - ?p)) zs2"
        define h1 where "h1 = h\<lparr>blocks := (blocks h)(?b \<mapsto> zs), next_addr := Suc ?b\<rparr>"
        define h5 where "h5 = (set_block h1 ?b zs3)\<lparr>blocks := (blocks (set_block h1 ?b zs3))(a := None)\<rparr>"
        have ab: "a \<noteq> ?b" using block(4) by simp
        have ctor': "ArrayPtr_ctor T h nc = Inr (h1, \<lparr>raw_ptr_m = Some ?b\<rparr>)"
          using ctor by (simp add: h1_def zs_def)
        have h1a: "blocks h1 a = Some xs" using ab block(2) by (simp add: h1_def)
        have h1b: "blocks h1 ?b = Some zs" by (simp add: h1_def)
        have lz: "length zs = unat nc" by (simp add: zs_def)
        have lz1: "length zs1 = unat nc" using ps sc nc block(3) lz by (simp add: zs1_def)
        have lz2: "length zs2 = unat nc" using lz1 by (simp add: zs2_def)
        have lz3: "length zs3 = unat nc" using ps sc nc block(3) lz2 by (simp add: zs3_def)
        have c1: "copy h1 (Some a) 0 ?p (Some ?b) 0 = Inr (set_block h1 ?b zs1)"
          unfolding zs1_def using h1a h1b ab
          by (rule copy_block) (use ps sc nc block(3) lz in simp_all)
        have "store (set_block h1 ?b zs1) (Some ?b) ?p x = Inr (set_block (set_block h1 ?b zs1) ?b zs2)"
          unfolding zs2_def by (rule store_block) (use lz1 ps nc in simp_all)
        then have st: "store (set_block h1 ?b zs1) (Some ?b) ?p x = Inr (set_block h1 ?b zs2)"
          by (simp only: set_block_twice)
        have "copy (set_block h1 ?b zs2) (Some a) ?p (?s - ?p) (Some ?b) (?p + 1) =
              Inr (set_block (set_block h1 ?b zs2) ?b zs3)"
          unfolding zs3_def
          by (rule copy_block [where xs = xs]) (use ab h1a ps sc nc block(3) lz2 in simp_all)
        then have c2: "copy (set_block h1 ?b zs2) (Some a) ?p (?s - ?p) (Some ?b) (?p + 1) =
              Inr (set_block h1 ?b zs3)"
          by (simp only: set_block_twice)
        have del: "delete_array (set_block h1 ?b zs3) (Some a) = Inr h5"
          unfolding h5_def using ab h1a by (intro delete_array_block [where xs = xs]) simp
        let ?v' = "v\<lparr>data_m := (data_m v)\<lparr>raw_ptr_m := Some ?b\<rparr>, capacity_m := nc,
                     size_m := size_m v + 1\<rparr>"
        have "Insert T h v p x = Inr (h5, ?v', p)"
          unfolding unf
          by (simp only: ctor' bind_Inr prod.case Get_def block(1) ArrayPtr.simps c1 st c2
                ArrayPtr_swap_def Let_def ArrayPtr_dtor_def del)
        moreover have "?v' = ?v" by simp
        ultimately have res: "Insert T h v p x = Inr (h5, ?v, p)" by (simp only:)
        have h5b: "blocks h5 ?b = Some zs3" using ab by (simp add: h5_def)
        have h5n: "next_addr h5 = Suc ?b" by (simp add: h5_def h1_def)
        have val: "valid h5 ?v"
          using le lz3 h5b h5n by (simp add: valid_def extent_def allocated_def)
        have "elems h5 ?v = take (Suc ?s) zs3"
          using h5b s1 by (simp add: elems_def)
        also have "\<dots> = take ?p (take ?s xs) @ [x] @ drop ?p (take ?s xs)"
          unfolding zs3_def zs2_def zs1_def
          by (rule insert_realloc_list) (use ps nc eqn block(3) lz in simp_all)
        finally have el: "elems h5 ?v = take ?p (elems h v) @ [x] @ drop ?p (elems h v)"
          using block(1,2) by (simp only: elems_block)
        have "\<exists>h' v'. Insert T h v p x = Inr (h', v', p) \<and> valid h' v' \<and>
                 size_m v' = size_m v + 1 \<and>
                 elems h' v' = take (unat p) (elems h v) @ [x] @ drop (unat p) (elems h v)"
          using res val el by (intro exI [of _ h5] exI [of _ ?v]) simp
        then show ?thesis using lim by simp
      qed
    qed
    then show ?thesis using eq unfolding nc_def by simp
  qed
qed

lemma SimpleVector_copy_ctor_valid:
  assumes v: "valid h other"
  shows "if alloc_limit h < unat (size_m other) then SimpleVector_copy_ctor T h other = Inl bad_alloc
         else (\<exists>h1 cp. SimpleVector_copy_ctor T h other = Inr (h1, cp) \<and> valid h1 cp \<and>
                 size_m cp = size_m other \<and> capacity_m cp = size_m other \<and>
                 elems h1 cp = elems h other \<and>
                 (a < next_addr h \<longrightarrow> frame a h h1 \<and> raw_ptr_m (data_m cp) \<noteq> Some a))"
proof (cases "size_m other = 0")
  case True
  let ?cp = "\<lparr>size_m = 0, capacity_m = 0, data_m = \<lparr>raw_ptr_m = None\<rparr>\<rparr>"
  have "SimpleVector_copy_ctor T h other = Inr (h, ?cp)"
    using True
    by (simp add: SimpleVector_copy_ctor_def SimpleVector_ctor_size_def ArrayPtr_ctor_def
        SimpleVector_default_def ArrayPtr_swap_def ArrayPtr_dtor_def delete_array_def Get_def
        begin_it_def Let_def)
  moreover have "valid h ?cp" by (simp add: valid_def extent_def allocated_def)
  moreover have "elems h ?cp = elems h other"
    using True by (simp add: elems_def split: option.splits)
  ultimately show ?thesis using True by (simp add: frame_def)
next
  case False
  let ?s = "unat (size_m other)"
  have s0: "0 < ?s" using False by (simp add: unat_gt_0)
  show ?thesis
  proof (cases "alloc_limit h < ?s")
    case True
    then have "SimpleVector_copy_ctor T h other = Inl bad_alloc"
      using False
      by (simp add: SimpleVector_copy_ctor_def SimpleVector_ctor_size_def ArrayPtr_ctor_def
          new_array_fail)
    then show ?thesis using True by simp
  next
    case lim: False
    from v show ?thesis
    proof (cases rule: valid_cases)
      case null
      with False show ?thesis by simp
    next
      case (block b xs)
      let ?n = "next_addr h"
      define zs where "zs = map (default_init T) [0..<?s]"
      define zs1 where "zs1 = take 0 zs @ replicate ?s (value_init T) @ drop (0 + ?s) zs"
      define zs2 where "zs2 = take 0 zs1 @ take ?s (drop 0 xs) @ drop (0 + ?s) zs1"
      define h1 where "h1 = h\<lparr>blocks := (blocks h)(?n \<mapsto> zs), next_addr := Suc ?n\<rparr>"
      let ?cp = "\<lparr>size_m = size_m other, capacity_m = size_m other, data_m = \<lparr>raw_ptr_m = Some ?n\<rparr>\<rparr>"
      have bn: "b \<noteq> ?n" using block(4) by simp
      have ctor: "ArrayPtr_ctor T h (size_m other) = Inr (h1, \<lparr>raw_ptr_m = Some ?n\<rparr>)"
        using lim False by (simp add: ArrayPtr_ctor_def new_array_ok h1_def zs_def)
      have h1n: "blocks h1 ?n = Some zs" by (simp add: h1_def)
      have h1b: "blocks h1 b = Some xs" using bn block(2) by (simp add: h1_def)
      have lz: "length zs = ?s" by (simp add: zs_def)
      have lz1: "length zs1 = ?s" using lz by (simp add: zs1_def)
      have lz2: "length zs2 = ?s" using lz1 block(3,5) by (simp add: zs2_def)
      have fl: "fill h1 (Some ?n) 0 ?s (value_init T) = Inr (set_block h1 ?n zs1)"
        unfolding zs1_def using h1n by (rule fill_block) (simp add: lz)
      have sz: "SimpleVector_ctor_size T h (size_m other) = Inr (set_block h1 ?n zs1, ?cp)"
        unfolding SimpleVector_ctor_size_def
        by (simp only: ctor bind_Inr prod.case Get_def ArrayPtr.simps fl)
      have "copy (set_block h1 ?n zs1) (Some b) 0 ?s (Some ?n) 0 =
            Inr (set_block (set_block h1 ?n zs1) ?n zs2)"
        unfolding zs2_def
        by (rule copy_block [where xs = xs]) (use bn h1b block(3,5) lz1 in simp_all)
      then have cp: "copy (set_block h1 ?n zs1) (Some b) 0 ?s (Some ?n) 0 = Inr (set_block h1 ?n zs2)"
        by (simp only: set_block_twice)
      have "SimpleVector_copy_ctor T h other =
            Inr (set_block h1 ?n zs2,
                 (SimpleVector_default\<lparr>size_m := size_m ?cp, capacity_m := capacity_m ?cp\<rparr>)
                   \<lparr>data_m := (data_m (SimpleVector_default\<lparr>size_m := size_m ?cp, capacity_m := capacity_m ?cp\<rparr>))
                                \<lparr>raw_ptr_m := raw_ptr_m (data_m ?cp)\<rparr>\<rparr>)"
        unfolding SimpleVector_copy_ctor_def
        by (simp only: sz bind_Inr prod.case begin_it_def Get_def block(1) SimpleVector.simps
              ArrayPtr.simps cp Let_def ArrayPtr_swap_def ArrayPtr_dtor_def)
           (simp add: SimpleVector_default_def delete_array_def)
      then have res: "SimpleVector_copy_ctor T h other = Inr (set_block h1 ?n zs2, ?cp)"
        by (simp add: SimpleVector_default_def)
      have val: "valid (set_block h1 ?n zs2) ?cp"
        using lz2 by (simp add: valid_def extent_def allocated_def h1_def)
      have "elems (set_block h1 ?n zs2) ?cp = take ?s zs2" by (simp add: elems_def)
      also have "\<dots> = take ?s xs" using lz1 block(3,5) by (simp add: zs2_def)
      finally have el: "elems (set_block h1 ?n zs2) ?cp = elems h other"
        using block(1,2) by (simp only: elems_block)
      have fr: "a < next_addr h \<longrightarrow> frame a h (set_block h1 ?n zs2) \<and> raw_ptr_m (data_m ?cp) \<noteq> Some a"
        by (simp add: h1_def frame_def)
      have "\<exists>h1 cp. SimpleVector_copy_ctor T h other = Inr (h1, cp) \<and> valid h1 cp \<and>
                 size_m cp = size_m other \<and> capacity_m cp = size_m other \<and>
                 elems h1 cp = elems h other \<and>
                 (a < next_addr h \<longrightarrow> frame a h h1 \<and> raw_ptr_m (data_m cp) \<noteq> Some a)"
        using res val el fr by (intro exI [of _ "set_block h1 ?n zs2"] exI [of _ ?cp]) simp
      then show ?thesis unfolding if_not_P [OF lim] .
    qed
  qed
qed

section \<open>A mutation keeps every block that is apart from its vector\<close>

lemma ReallocateAndMoveData_keeps:
  assumes "ReallocateAndMoveData T h v k = Inr (h', v')" and a: "apart a h v"
  shows "apart a h' v' \<and> frame a h h'"
proof -
  obtain h1 nd h2 where ctor: "ArrayPtr_ctor T h k = Inr (h1, nd)"
    and mv: "move T h1 (raw_ptr_m (data_m v)) 0 (unat (min (size_m v) k)) (raw_ptr_m nd) 0 = Inr h2"
    and del: "delete_array h2 (raw_ptr_m (data_m v)) = Inr h'"
    and v': "raw_ptr_m (data_m v') = raw_ptr_m nd"
    using assms(1)
    by (auto simp: ReallocateAndMoveData_def bind_eq_Inr ArrayPtr_swap_def ArrayPtr_dtor_def Let_def)
  have 1: "frame a h h1" "raw_ptr_m nd \<noteq> Some a"
    using ArrayPtr_ctor_keeps [OF ctor, of a] a by (simp_all add: apart_def)
  have 2: "frame a h1 h2" using move_keeps [OF mv] a 1 by (simp add: apart_def)
  have 3: "frame a h2 h'" using delete_array_keeps [OF del] a by (simp add: apart_def)
  have f: "frame a h h'" using 1 2 3 frame_trans by blast
  then show ?thesis using a v' 1 by (simp add: apart_def frame_def)
qed

lemma Reserve_keeps:
  assumes "Reserve T h v k = Inr (h', v')" and a: "apart a h v"
  shows "apart a h' v' \<and> frame a h h'"
  using assms ReallocateAndMoveData_keeps [of T h v k h' v' a]
  by (auto simp: Reserve_def split: if_splits)

lemma PushBack_keeps:
  assumes "PushBack T h v x = Inr (h', v')" and a: "apart a h v"
  shows "apart a h' v' \<and> frame a h h'"
proof -
  define nc where "nc = (if capacity_m v \<noteq> 0 then max (size_m v + 1) (2 * capacity_m v) else 1)"
  define r where "r = (if size_m v + 1 > capacity_m v then ReallocateAndMoveData T h v nc else Inr (h, v))"
  have "bind r (\<lambda>(h1, v1).
      bind (store h1 (raw_ptr_m (data_m v1)) (unat (size_m v1)) x) (\<lambda>h2.
      Inr (h2, v1\<lparr>size_m := size_m v + 1\<rparr>))) = Inr (h', v')"
    using assms(1) unfolding PushBack_def Let_def r_def nc_def .
  then obtain h1 v1 where r: "r = Inr (h1, v1)"
    and st: "store h1 (raw_ptr_m (data_m v1)) (unat (size_m v1)) x = Inr h'"
    and v': "data_m v' = data_m v1"
    by (auto simp: bind_eq_Inr)
  have 1: "apart a h1 v1 \<and> frame a h h1"
  proof (cases "size_m v + 1 > capacity_m v")
    case True
    then have "ReallocateAndMoveData T h v nc = Inr (h1, v1)" using r by (simp add: r_def)
    then show ?thesis using a by (rule ReallocateAndMoveData_keeps)
  next
    case False
    then show ?thesis using r a by (simp add: r_def)
  qed
  then have 2: "frame a h1 h'" using store_keeps [OF st] by (simp add: apart_def)
  have f: "frame a h h'" using 1 2 frame_trans by blast
  show ?thesis using 1 2 f v' by (simp add: apart_def frame_def)
qed

lemma Erase_keeps:
  assumes "Erase T h v p = Inr (h', v', r)" and a: "apart a h v"
  shows "apart a h' v' \<and> frame a h h'"
proof -
  obtain n where mv: "move T h (raw_ptr_m (data_m v)) (unat p + 1) n (raw_ptr_m (data_m v)) (unat p) = Inr h'"
    and v': "data_m v' = data_m v"
    using assms(1) by (auto simp: Erase_def bind_eq_Inr begin_it_def Get_def split: if_splits)
  have f: "frame a h h'" using move_keeps [OF mv] a by (simp add: apart_def)
  show ?thesis using a f v' by (simp add: apart_def frame_def)
qed

lemma Insert_keeps:
  assumes "Insert T h v p x = Inr (h', v', r)" and a: "apart a h v"
  shows "apart a h' v' \<and> frame a h h'"
proof (cases "size_m v + 1 \<le> capacity_m v")
  case True
  then obtain h1 n where cb: "copy_backward h (raw_ptr_m (data_m v)) (unat p) n
        (raw_ptr_m (data_m v)) (unat p + 1) = Inr h1"
    and st: "store h1 (raw_ptr_m (data_m v)) (unat p) x = Inr h'"
    and v': "data_m v' = data_m v"
    using assms(1) by (auto simp: Insert_def bind_eq_Inr Let_def Get_def split: if_splits)
  have 1: "frame a h h1" using copy_backward_keeps [OF cb] a by (simp add: apart_def)
  have 2: "frame a h1 h'" using store_keeps [OF st] a by (simp add: apart_def)
  have f: "frame a h h'" using 1 2 frame_trans by blast
  show ?thesis using a f v' by (simp add: apart_def frame_def)
next
  case False
  define nc where "nc = (if capacity_m v \<noteq> 0 then max (size_m v + 1) (2 * capacity_m v) else 1)"
  have "bind (ArrayPtr_ctor T h nc) (\<lambda>(h1, new_data).
      bind (copy h1 (Get (data_m v)) 0 (unat p) (Get new_data) 0) (\<lambda>h2.
      bind (store h2 (raw_ptr_m new_data) (unat p) x) (\<lambda>h3.
      bind (copy h3 (Get (data_m v)) (unat p) (unat (size_m v) - unat p)
              (Get new_data) (unat p + 1)) (\<lambda>h4.
      (let (d, nd) = ArrayPtr_swap (data_m v) new_data in
       bind (ArrayPtr_dtor h4 nd) (\<lambda>h5.
       Inr (h5, v\<lparr>data_m := d, capacity_m := nc, size_m := size_m v + 1\<rparr>, p))))))) = Inr (h', v', r)"
    using assms(1) False unfolding Insert_def Let_def nc_def by (simp split: if_splits)
  then obtain h1 nd h2 h3 h4 where ctor: "ArrayPtr_ctor T h nc = Inr (h1, nd)"
    and c1: "copy h1 (raw_ptr_m (data_m v)) 0 (unat p) (raw_ptr_m nd) 0 = Inr h2"
    and st: "store h2 (raw_ptr_m nd) (unat p) x = Inr h3"
    and c2: "copy h3 (raw_ptr_m (data_m v)) (unat p) (unat (size_m v) - unat p) (raw_ptr_m nd) (unat p + 1) = Inr h4"
    and del: "delete_array h4 (raw_ptr_m (data_m v)) = Inr h'"
    and v': "raw_ptr_m (data_m v') = raw_ptr_m nd"
    by (auto simp: bind_eq_Inr ArrayPtr_swap_def ArrayPtr_dtor_def Get_def Let_def)
  have 1: "frame a h h1" "raw_ptr_m nd \<noteq> Some a"
    using ArrayPtr_ctor_keeps [OF ctor, of a] a by (simp_all add: apart_def)
  have 2: "frame a h1 h2" using copy_keeps [OF c1] 1 by simp
  have 3: "frame a h2 h3" using store_keeps [OF st] 1 by simp
  have 4: "frame a h3 h4" using copy_keeps [OF c2] 1 by simp
  have 5: "frame a h4 h'" using delete_array_keeps [OF del] a by (simp add: apart_def)
  have f: "frame a h h'" using 1 2 3 4 5 frame_trans by blast
  show ?thesis using a f v' 1 by (simp add: apart_def frame_def)
qed

lemma Resize_keeps:
  assumes "Resize T h v n = Inr (h', v')" and a: "apart a h v"
  shows "apart a h' v' \<and> frame a h h'"
proof -
  consider (shrink) "n \<le> size_m v" | (in_place) "\<not> n \<le> size_m v" "n \<le> capacity_m v"
    | (grow) "\<not> n \<le> size_m v" "\<not> n \<le> capacity_m v" by blast
  then show ?thesis
  proof cases
    case shrink
    then show ?thesis using assms by (auto simp: Resize_def apart_def)
  next
    case in_place
    then obtain k where fl: "fill h (raw_ptr_m (data_m v)) (unat (size_m v)) k (value_init T) = Inr h'"
      and v': "data_m v' = data_m v"
      using assms(1) by (auto simp: Resize_def bind_eq_Inr)
    have f: "frame a h h'" using fill_keeps [OF fl] a by (simp add: apart_def)
    show ?thesis using a f v' by (simp add: apart_def frame_def)
  next
    case grow
    define nc :: size_t where "nc = scast (ucast (max n (capacity_m v * 2)) :: 32 word)"
    have "bind (ArrayPtr_ctor T h nc) (\<lambda>(h1, new_array).
         bind (move T h1 (raw_ptr_m (data_m v)) 0 (unat (size_m v)) (raw_ptr_m new_array) 0) (\<lambda>h2.
         bind (fill h2 (raw_ptr_m new_array) (unat (size_m v)) (unat n - unat (size_m v))
                 (value_init T)) (\<lambda>h3.
         (let (d, old) = ArrayPtr_swap (data_m v) new_array in
          bind (ArrayPtr_dtor h3 old) (\<lambda>h4.
          Inr (h4, v\<lparr>data_m := d, capacity_m := nc, size_m := n\<rparr>)))))) = Inr (h', v')"
      using assms(1) grow unfolding Resize_def Let_def nc_def by simp
    then obtain h1 nd h2 h3 where ctor: "ArrayPtr_ctor T h nc = Inr (h1, nd)"
      and mv: "move T h1 (raw_ptr_m (data_m v)) 0 (unat (size_m v)) (raw_ptr_m nd) 0 = Inr h2"
      and fl: "fill h2 (raw_ptr_m nd) (unat (size_m v)) (unat n - unat (size_m v)) (value_init T) = Inr h3"
      and del: "delete_array h3 (raw_ptr_m (data_m v)) = Inr h'"
      and v': "raw_ptr_m (data_m v') = raw_ptr_m nd"
      by (auto simp: bind_eq_Inr ArrayPtr_swap_def ArrayPtr_dtor_def Let_def)
    have 1: "frame a h h1" "raw_ptr_m nd \<noteq> Some a"
      using ArrayPtr_ctor_keeps [OF ctor, of a] a by (simp_all add: apart_def)
    have 2: "frame a h1 h2" using move_keeps [OF mv] a 1 by (simp add: apart_def)
    have 3: "frame a h2 h3" using fill_keeps [OF fl] 1 by simp
    have 4: "frame a h3 h'" using delete_array_keeps [OF del] a by (simp add: apart_def)
    have f: "frame a h h'" using 1 2 3 4 frame_trans by blast
    show ?thesis using a f v' 1 by (simp add: apart_def frame_def)
  qed
qed

lemma mutate_keeps:
  assumes m: "mutate T h v m = Inr (h', v')" and a: "apart a h v"
  shows "apart a h' v' \<and> frame a h h'"
proof (cases m)
  case (M_PushBack x)
  then have "PushBack T h v x = Inr (h', v')" using m by simp
  then show ?thesis using a by (rule PushBack_keeps)
next
  case M_PopBack
  then have "h' = h" "data_m v' = data_m v"
    using m by (auto simp: PopBack_def bind_eq_Inr split: if_splits)
  then show ?thesis using a by (simp add: apart_def)
next
  case (M_Insert p x)
  then obtain r where "Insert T h v p x = Inr (h', v', r)"
    using m by (auto simp: bind_eq_Inr)
  then show ?thesis using a by (rule Insert_keeps)
next
  case (M_Erase p)
  then obtain r where "Erase T h v p = Inr (h', v', r)"
    using m by (auto simp: bind_eq_Inr)
  then show ?thesis using a by (rule Erase_keeps)
next
  case (M_Resize n)
  then have "Resize T h v n = Inr (h', v')" using m by simp
  then show ?thesis using a by (rule Resize_keeps)
next
  case (M_Reserve n)
  then have "Reserve T h v n = Inr (h', v')" using m by simp
  then show ?thesis using a by (rule Reserve_keeps)
next
  case M_Clear
  then have "h' = h" "data_m v' = data_m v"
    using m by (auto simp: Clear_def)
  then show ?thesis using a by (simp add: apart_def)
next
  case (M_Assign i x)
  then have "bind (store h (raw_ptr_m (data_m v)) (unat i) x) (\<lambda>h'. Inr (h', v)) = Inr (h', v')"
    using m by (simp add: subscript_def)
  then have st: "store h (raw_ptr_m (data_m v)) (unat i) x = Inr h'" and v': "data_m v' = data_m v"
    by (auto simp: bind_eq_Inr)
  have f: "frame a h h'" using store_keeps [OF st] a by (simp add: apart_def)
  show ?thesis using a f v' by (simp add: apart_def frame_def)
qed

lemma mutate_all_keeps:
  "mutate_all T h v ms = Inr (h', v') \<Longrightarrow> apart a h v \<Longrightarrow> apart a h' v' \<and> frame a h h'"
proof (induction ms arbitrary: h v)
  case Nil
  then show ?case by simp
next
  case (Cons m ms)
  then obtain h1 v1 where 1: "mutate T h v m = Inr (h1, v1)"
    and 2: "mutate_all T h1 v1 ms = Inr (h', v')"
    by (auto simp: bind_eq_Inr)
  have 3: "apart a h1 v1 \<and> frame a h h1" using mutate_keeps [OF 1 Cons.prems(2)] .
  then have "apart a h' v' \<and> frame a h1 h'" using Cons.IH [OF 2] by simp
  then show ?case using 3 frame_trans by blast
qed

lemma frame_valid_elems:
  assumes "raw_ptr_m (data_m v) = Some b" and "frame b h h'" and "valid h v"
  shows "valid h' v \<and> elems h' v = elems h v"
  using assms by (auto simp: frame_def valid_def extent_def allocated_def elems_def)

lemma null_valid_elems:
  assumes "raw_ptr_m (data_m v) = None" and "valid h v"
  shows "valid h' v \<and> elems h' v = elems h v"
  using assms by (simp add: valid_def extent_def allocated_def elems_def)

section \<open>Evaluation on numerals\<close>

lemma loops_numeral:
  "fill h p i (numeral k) x = bind (store h p i x) (\<lambda>h'. fill h' p (Suc i) (pred_numeral k) x)"
  "copy h s si (numeral k) d di =
     bind (load h s si) (\<lambda>x.
     bind (store h d di x) (\<lambda>h'.
     copy h' s (Suc si) (pred_numeral k) d (Suc di)))"
  "copy_backward h s si (numeral k) d di =
     bind (load h s (si + pred_numeral k)) (\<lambda>x.
     bind (store h d (di + pred_numeral k) x) (\<lambda>h'.
     copy_backward h' s si (pred_numeral k) d di))"
  "move T h s si (numeral k) d di =
     bind (load h s si) (\<lambda>x.
     bind (store h d di x) (\<lambda>h1.
     bind (store h1 s si (moved_from T x)) (\<lambda>h2.
     move T h2 s (Suc si) (pred_numeral k) d (Suc di))))"
  "equal h s si (numeral k) d di =
     bind (load h s si) (\<lambda>x.
     bind (load h d di) (\<lambda>y.
     if x = y then equal h s (Suc si) (pred_numeral k) d (Suc di) else Inr False))"
  by (simp_all add: numeral_eq_Suc)

lemma upt_numeral: "[0..<numeral k] = [0..<pred_numeral k] @ [pred_numeral k]"
  by (simp add: numeral_eq_Suc)

lemmas ev = loops_numeral upt_numeral load_def store_def new_array_def delete_array_def
  ArrayPtr_ctor_def ArrayPtr_dtor_def ArrayPtr_swap_def Get_def begin_it_def

section \<open>The claims\<close>

text \<open>
  Claim C1: for every vector reachable by public operations, the capacity-reservation
  constructor included, the capacity field is the physical extent of the owned buffer and
  the size is at most the capacity. The code breaks it: the constructor assigns
  \<^verbatim>\<open>capacity_\<close> before it calls \<^verbatim>\<open>Reserve(capacity_)\<close>, whose test
  \<^verbatim>\<open>new_capacity > capacity_\<close> is then false, so nothing is allocated. For
  \<^verbatim>\<open>SimpleVector<int> v(Reserve(5))\<close> the capacity is 5 and the buffer is \<^verbatim>\<open>nullptr\<close>, of
  extent 0; the vector is not valid, and the first \<^verbatim>\<open>PushBack\<close> writes through \<^verbatim>\<open>nullptr\<close>.
\<close>

theorem reserve_ctor_allocates_nothing:
  "SimpleVector_ctor_reserve T h (Reserve_proxy 5) =
     Inr (h, \<lparr>size_m = 0, capacity_m = 5, data_m = \<lparr>raw_ptr_m = None\<rparr>\<rparr>) \<and>
   extent h (data_m \<lparr>size_m = 0, capacity_m = 5, data_m = \<lparr>raw_ptr_m = None\<rparr>\<rparr>) = Some 0 \<and>
   \<not> valid h \<lparr>size_m = 0, capacity_m = 5, data_m = \<lparr>raw_ptr_m = None\<rparr>\<rparr> \<and>
   PushBack T h \<lparr>size_m = 0, capacity_m = 5, data_m = \<lparr>raw_ptr_m = None\<rparr>\<rparr> x =
     Inl undefined_behaviour"
  by (simp add: SimpleVector_ctor_reserve_def Reserve_proxy_def Reserve_def SimpleVector_default_def
      extent_def valid_def PushBack_def store_def)

text \<open>
  Claim C2: \<^verbatim>\<open>operator==\<close> returns true if and only if the two vectors have equal size
  and equal elements at every index below the size. The code breaks it: the
  three-iterator \<^verbatim>\<open>std::equal\<close> compares the first \<^verbatim>\<open>lhs.size()\<close> elements only and never
  the sizes. With \<^verbatim>\<open>{1, 2}\<close> on the left and \<^verbatim>\<open>{1, 2, 3}\<close> on the right it returns true.
\<close>

theorem operator_eq_ignores_longer_rhs:
  "SimpleVector_ctor_init T_int h_empty [1, 2] = Inr (h_12, v_12) \<and>
   SimpleVector_ctor_init T_int h_12 [1, 2, 3] = Inr (h_pair, w_123) \<and>
   size_m v_12 = 2 \<and> size_m w_123 = 3 \<and>
   elems h_pair v_12 = [1, 2] \<and> elems h_pair w_123 = [1, 2, 3] \<and>
   operator_eq h_pair v_12 w_123 = Inr True"
  by (simp add: SimpleVector_ctor_init_def operator_eq_def elems_def T_int_def h_empty_def h_12_def
      h_pair_def v_12_def w_123_def ev)

text \<open>
  Claim C3, as amended: for every valid vector and every \<open>k\<close>, \<^verbatim>\<open>Reserve(k)\<close> either
  throws \<^verbatim>\<open>bad_alloc\<close> (when it has to allocate and the allocator refuses \<open>k\<close> elements) or
  returns with the size unchanged and, when \<open>k\<close> exceeds the capacity, with the capacity
  exactly \<open>k\<close>; and when the size \<open>s\<close> satisfies \<open>s + k \<le> max capacity k\<close> (every empty
  vector does), each of the following \<open>k\<close> \<^verbatim>\<open>PushBack\<close>s returns, leaves the capacity and
  the buffer pointer as \<^verbatim>\<open>Reserve\<close> left them, allocates nothing, and appends its value.
\<close>

theorem Reserve_then_PushBack_keeps_capacity:
  assumes v: "valid h v" and len: "length xs = unat k"
  shows "if capacity_m v < k \<and> alloc_limit h < unat k then Reserve T h v k = Inl bad_alloc
         else (\<exists>h1 v1. Reserve T h v k = Inr (h1, v1) \<and> size_m v1 = size_m v \<and>
                 (capacity_m v < k \<longrightarrow> capacity_m v1 = k) \<and>
                 (unat (size_m v) + unat k \<le> max (unat (capacity_m v)) (unat k) \<longrightarrow>
                    (\<forall>j \<le> unat k. \<exists>hj vj.
                       PushBack_all T h1 v1 (take j xs) = Inr (hj, vj) \<and>
                       capacity_m vj = capacity_m v1 \<and> data_m vj = data_m v1 \<and>
                       next_addr hj = next_addr h1 \<and> elems hj vj = elems h v @ take j xs)))"
proof (cases "capacity_m v < k \<and> alloc_limit h < unat k")
  case True
  show ?thesis using Reserve_valid [OF v, of k T] unfolding if_P [OF True] by (simp only: True if_True)
next
  case False
  obtain h1 v1 where r: "Reserve T h v k = Inr (h1, v1)" and v1: "valid h1 v1"
    and e1: "elems h1 v1 = elems h v" and s1: "size_m v1 = size_m v"
    and c1: "capacity_m v1 = (if capacity_m v < k then k else capacity_m v)"
    using Reserve_valid [OF v, of k T] unfolding if_not_P [OF False] by blast
  have cmax: "unat (capacity_m v1) = max (unat (capacity_m v)) (unat k)"
    using c1 by (auto simp: word_less_nat_alt max_def)
  have "\<exists>hj vj. PushBack_all T h1 v1 (take j xs) = Inr (hj, vj) \<and>
          capacity_m vj = capacity_m v1 \<and> data_m vj = data_m v1 \<and>
          next_addr hj = next_addr h1 \<and> elems hj vj = elems h v @ take j xs"
    if fit: "unat (size_m v) + unat k \<le> max (unat (capacity_m v)) (unat k)" and j: "j \<le> unat k" for j
  proof -
    have "unat (size_m v1) + length (take j xs) \<le> unat (capacity_m v1)"
      using fit j len s1 cmax by simp
    from PushBack_all_in_place [OF v1 this, of T] show ?thesis using e1 by auto
  qed
  then have "\<exists>h1 v1. Reserve T h v k = Inr (h1, v1) \<and> size_m v1 = size_m v \<and>
                 (capacity_m v < k \<longrightarrow> capacity_m v1 = k) \<and>
                 (unat (size_m v) + unat k \<le> max (unat (capacity_m v)) (unat k) \<longrightarrow>
                    (\<forall>j \<le> unat k. \<exists>hj vj.
                       PushBack_all T h1 v1 (take j xs) = Inr (hj, vj) \<and>
                       capacity_m vj = capacity_m v1 \<and> data_m vj = data_m v1 \<and>
                       next_addr hj = next_addr h1 \<and> elems hj vj = elems h v @ take j xs))"
    using r s1 c1 by (intro exI [of _ h1] exI [of _ v1]) simp
  then show ?thesis unfolding if_not_P [OF False] .
qed

text \<open>
  The claim as stated, for every vector and every \<open>k\<close>, fails on \<^verbatim>\<open>{1, 2, 3}\<close> with
  \<open>k = 1\<close>: \<^verbatim>\<open>Reserve(1)\<close> changes nothing, the capacity being 3, and the one \<^verbatim>\<open>PushBack\<close>
  reallocates to capacity 6.
\<close>

theorem Reserve_then_PushBack_counterexample:
  "valid h_123 v_123 \<and> Reserve T_int h_123 v_123 1 = Inr (h_123, v_123) \<and>
   capacity_m v_123 = 3 \<and>
   map_sum id (capacity_m \<circ> snd) (PushBack_all T_int h_123 v_123 [4]) = Inr 6"
  by (simp add: valid_def extent_def allocated_def Reserve_def PushBack_def ReallocateAndMoveData_def
      h_123_def v_123_def T_int_def ev)

theorem Reserve_then_PushBack_witness:
  "valid h_empty SimpleVector_default \<and> length [7, 8, 9 :: int] = unat (3 :: size_t) \<and>
   capacity_m SimpleVector_default < (3 :: size_t) \<and>
   unat (size_m SimpleVector_default) + unat (3 :: size_t) \<le>
     max (unat (capacity_m SimpleVector_default)) (unat (3 :: size_t)) \<and>
   (\<exists>h1 v1. Reserve T_int h_empty SimpleVector_default 3 = Inr (h1, v1) \<and>
      size_m v1 = 0 \<and> capacity_m v1 = 3 \<and>
      (\<exists>hj vj. PushBack_all T_int h1 v1 (take 3 [7, 8, 9]) = Inr (hj, vj) \<and>
         capacity_m vj = 3 \<and> data_m vj = data_m v1 \<and> next_addr hj = next_addr h1 \<and>
         elems hj vj = [7, 8, 9]))"
proof -
  have 1: "valid h_empty SimpleVector_default"
    by (simp add: valid_def extent_def allocated_def h_empty_def SimpleVector_default_def)
  have 2: "length [7, 8, 9 :: int] = unat (3 :: size_t)" by simp
  have 3: "capacity_m SimpleVector_default < (3 :: size_t)"
    by (simp add: SimpleVector_default_def)
  have 4: "unat (size_m SimpleVector_default) + unat (3 :: size_t) \<le>
     max (unat (capacity_m SimpleVector_default)) (unat (3 :: size_t))"
    by (simp add: SimpleVector_default_def)
  have 5: "\<not> (capacity_m SimpleVector_default < 3 \<and> alloc_limit h_empty < unat (3 :: size_t))"
    by (simp add: h_empty_def)
  have 6: "(3 :: nat) \<le> unat (3 :: size_t)" by simp
  have 7: "size_m SimpleVector_default = 0" "elems h_empty SimpleVector_default = []"
    by (simp_all add: SimpleVector_default_def elems_def)
  obtain h1 v1 where r: "Reserve T_int h_empty SimpleVector_default 3 = Inr (h1, v1)"
    and s: "size_m v1 = size_m SimpleVector_default" and c: "capacity_m v1 = 3"
    and p: "\<forall>j \<le> unat (3 :: size_t). \<exists>hj vj.
              PushBack_all T_int h1 v1 (take j [7, 8, 9]) = Inr (hj, vj) \<and>
              capacity_m vj = capacity_m v1 \<and> data_m vj = data_m v1 \<and>
              next_addr hj = next_addr h1 \<and>
              elems hj vj = elems h_empty SimpleVector_default @ take j [7, 8, 9]"
    using Reserve_then_PushBack_keeps_capacity [OF 1 2, of T_int] 3 4
    unfolding if_not_P [OF 5] by blast
  obtain hj vj where "PushBack_all T_int h1 v1 (take 3 [7, 8, 9]) = Inr (hj, vj)"
    "capacity_m vj = capacity_m v1" "data_m vj = data_m v1" "next_addr hj = next_addr h1"
    "elems hj vj = elems h_empty SimpleVector_default @ take 3 [7, 8, 9]"
    using p 6 by blast
  then have "\<exists>hj vj. PushBack_all T_int h1 v1 (take 3 [7, 8, 9]) = Inr (hj, vj) \<and>
         capacity_m vj = 3 \<and> data_m vj = data_m v1 \<and> next_addr hj = next_addr h1 \<and>
         elems hj vj = [7, 8, 9]"
    using c 7 by (intro exI [of _ hj] exI [of _ vj]) simp
  then have "Reserve T_int h_empty SimpleVector_default 3 = Inr (h1, v1) \<and>
      size_m v1 = 0 \<and> capacity_m v1 = 3 \<and>
      (\<exists>hj vj. PushBack_all T_int h1 v1 (take 3 [7, 8, 9]) = Inr (hj, vj) \<and>
         capacity_m vj = 3 \<and> data_m vj = data_m v1 \<and> next_addr hj = next_addr h1 \<and>
         elems hj vj = [7, 8, 9])"
    using r s c 7 by (simp only: simp_thms)
  then have "\<exists>h1 v1. Reserve T_int h_empty SimpleVector_default 3 = Inr (h1, v1) \<and>
      size_m v1 = 0 \<and> capacity_m v1 = 3 \<and>
      (\<exists>hj vj. PushBack_all T_int h1 v1 (take 3 [7, 8, 9]) = Inr (hj, vj) \<and>
         capacity_m vj = 3 \<and> data_m vj = data_m v1 \<and> next_addr hj = next_addr h1 \<and>
         elems hj vj = [7, 8, 9])"
    by (intro exI [of _ h1] exI [of _ v1])
  then show ?thesis using 1 2 3 4 by (simp only: simp_thms)
qed

text \<open>
  Claim C4: for every \<open>newSize\<close> above the capacity, \<^verbatim>\<open>Resize(newSize)\<close> sets the capacity
  to \<open>max newSize (2 * capacity)\<close>, keeps the elements, default-fills the new ones and sets
  the size. The code breaks it: the maximum is stored in an \<^verbatim>\<open>int\<close>. On an empty vector,
  \<^verbatim>\<open>Resize(2147483648)\<close> narrows \<open>2 ^ 31\<close> to the \<^verbatim>\<open>int\<close> \<open>- 2 ^ 31\<close>, which converts back
  to the \<^verbatim>\<open>size_t\<close> \<open>2 ^ 64 - 2 ^ 31\<close>; the \<^verbatim>\<open>ArrayPtr\<close> constructor asks for that many
  elements, and with an allocator that grants at most \<open>2 ^ 40\<close> the call throws
  \<^verbatim>\<open>bad_alloc\<close>.
\<close>

theorem Resize_narrows_capacity_to_int:
  "(scast (ucast (max (2147483648 :: size_t) (capacity_m SimpleVector_default * 2)) :: 32 word) :: size_t) =
     18446744071562067968 \<and>
   alloc_limit h_empty = 2 ^ 40 \<and>
   Resize T_int h_empty SimpleVector_default 2147483648 = Inl bad_alloc \<and>
   (scast (ucast (max (4294967301 :: size_t) (capacity_m SimpleVector_default * 2)) :: 32 word) :: size_t) = 5 \<and>
   Resize T_int h_empty SimpleVector_default 4294967301 = Inl undefined_behaviour"
proof -
  let ?h = "h_empty\<lparr>blocks := (blocks h_empty)(0 \<mapsto> map (default_init T_int) [0..<5]),
                     next_addr := Suc 0\<rparr>"
  have "fill ?h (Some 0) 0 4294967301 (value_init T_int) = Inl undefined_behaviour"
    by (rule fill_overflow [where xs = "map (default_init T_int) [0..<5]"]) simp_all
  then have "Resize T_int h_empty SimpleVector_default 4294967301 = Inl undefined_behaviour"
    by (simp add: Resize_def SimpleVector_default_def ArrayPtr_ctor_def new_array_def h_empty_def)
  then show ?thesis
    by (simp add: Resize_def SimpleVector_default_def h_empty_def ArrayPtr_ctor_def new_array_def)
qed

text \<open>
  Claim C5: for every vector, every value and every position \<open>p\<close> in \<open>[0, size]\<close>,
  \<^verbatim>\<open>Insert\<close> at \<open>p\<close> followed by \<^verbatim>\<open>Erase\<close> at \<open>p\<close> yields the sequence of elements from
  before the \<^verbatim>\<open>Insert\<close>. The code breaks it on the vector of the capacity-reservation
  constructor, by the defect of claim C1: \<^verbatim>\<open>SimpleVector<int> v(Reserve(5))\<close> has size 0,
  capacity 5 and the buffer \<^verbatim>\<open>nullptr\<close>, so \<^verbatim>\<open>v.Insert(v.begin(), 9)\<close>, at the position 0
  of an empty vector, finds \<^verbatim>\<open>new_size <= capacity_\<close>, takes the branch that inserts in
  place, and writes \<^verbatim>\<open>data_[0] = value\<close> through \<^verbatim>\<open>nullptr\<close>: there is no vector to erase
  from afterwards.
\<close>

theorem Insert_after_reserve_ctor_writes_through_null:
  "SimpleVector_ctor_reserve T_int h_empty (Reserve_proxy 5) = Inr (h_empty, v_reserved) \<and>
   size_m v_reserved = 0 \<and> capacity_m v_reserved = 5 \<and>
   extent h_empty (data_m v_reserved) = Some 0 \<and>
   elems h_empty v_reserved = [] \<and>
   (0 :: size_t) \<le> size_m v_reserved \<and>
   Insert T_int h_empty v_reserved 0 9 = Inl undefined_behaviour"
  by (simp add: SimpleVector_ctor_reserve_def Reserve_proxy_def Reserve_def SimpleVector_default_def
      v_reserved_def extent_def elems_def Insert_def Get_def store_def T_int_def h_empty_def ev)

text \<open>
  Claim C6: \<^verbatim>\<open>At(i)\<close> throws \<^verbatim>\<open>out_of_range\<close> if and only if \<open>i \<ge> size\<close>; for \<open>i < size\<close>
  it returns the reference \<^verbatim>\<open>operator[]\<close> returns, which in a valid vector reads element
  \<open>i\<close>; and the store and the vector are unchanged in every case.
\<close>

theorem At_checks_bounds:
  "fst (At h v i) = (h, v) \<and>
   (snd (At h v i) = Inl out_of_range \<longleftrightarrow> i \<ge> size_m v) \<and>
   (i < size_m v \<longrightarrow> snd (At h v i) = Inr (subscript v i)) \<and>
   (i < size_m v \<and> valid h v \<longrightarrow> deref h (subscript v i) = Inr (elems h v ! unat i))"
proof -
  have "deref h (subscript v i) = Inr (elems h v ! unat i)" if i: "i < size_m v" and v: "valid h v"
  proof -
    have lt: "unat i < unat (size_m v)" using i by (simp add: word_less_nat_alt)
    from v show ?thesis
    proof (cases rule: valid_cases)
      case null
      with i show ?thesis by simp
    next
      case (block a xs)
      then show ?thesis using lt by (simp add: deref_def subscript_def load_def elems_def)
    qed
  qed
  then show ?thesis by (auto simp: At_def)
qed

theorem At_checks_bounds_witness:
  "fst (At h_123 v_123 1) = (h_123, v_123) \<and>
   snd (At h_123 v_123 1) = Inr (subscript v_123 1) \<and>
   deref h_123 (subscript v_123 1) = Inr (elems h_123 v_123 ! unat (1 :: size_t)) \<and>
   snd (At h_123 v_123 3) = Inl out_of_range"
proof -
  have 1: "(1 :: size_t) < size_m v_123" by (simp add: v_123_def)
  have 2: "valid h_123 v_123"
    by (simp add: valid_def extent_def allocated_def h_123_def v_123_def)
  have 3: "(3 :: size_t) \<ge> size_m v_123" by (simp add: v_123_def)
  show ?thesis
    using At_checks_bounds [of h_123 v_123 1] At_checks_bounds [of h_123 v_123 3] 1 2 3 by blast
qed

text \<open>
  Claim C7, as amended: move construction, and move assignment from a different vector,
  leave the source with size 0, capacity 0 and no buffer, and the destination with the
  source's prior size, capacity and sequence of elements; move-assigning a vector to
  itself leaves it as it was.
\<close>

theorem move_transfers_contents:
  "(case SimpleVector_move_ctor src of
      (dst, src') \<Rightarrow>
        size_m src' = 0 \<and> capacity_m src' = 0 \<and> raw_ptr_m (data_m src') = None \<and>
        size_m dst = size_m src \<and> capacity_m dst = capacity_m src \<and> elems h dst = elems h src) \<and>
   (this \<noteq> other \<longrightarrow>
      (let objs' = SimpleVector_move_assign objs this other in
        size_m (objs' other) = 0 \<and> capacity_m (objs' other) = 0 \<and>
        raw_ptr_m (data_m (objs' other)) = None \<and>
        size_m (objs' this) = size_m (objs other) \<and>
        capacity_m (objs' this) = capacity_m (objs other) \<and>
        elems h (objs' this) = elems h (objs other))) \<and>
   SimpleVector_move_assign objs this this = objs"
  by (auto simp: SimpleVector_move_ctor_def ArrayPtr_move_ctor_def SimpleVector_move_assign_def
      ArrayPtr_move_assign_def Let_def elems_def split: option.splits)

text \<open>
  The claim as stated, for every move assignment, fails when a vector is move-assigned to
  itself: the guard \<^verbatim>\<open>this != &other\<close> skips the transfer, and the source, \<^verbatim>\<open>{1, 2, 3}\<close>
  at address 1, keeps size 3 and capacity 3.
\<close>

theorem self_move_assign_counterexample:
  "size_m (objs_AB 1) = 3 \<and> capacity_m (objs_AB 1) = 3 \<and>
   size_m (SimpleVector_move_assign objs_AB 1 1 1) = 3 \<and>
   capacity_m (SimpleVector_move_assign objs_AB 1 1 1) = 3"
  by (simp add: SimpleVector_move_assign_def objs_AB_def v_123_def)

theorem move_transfers_contents_witness:
  "(0 :: nat) \<noteq> 1 \<and>
   (let objs' = SimpleVector_move_assign objs_AB 0 1 in
      size_m (objs' 1) = 0 \<and> capacity_m (objs' 1) = 0 \<and>
      raw_ptr_m (data_m (objs' 1)) = None \<and>
      size_m (objs' 0) = size_m (objs_AB 1) \<and>
      capacity_m (objs' 0) = capacity_m (objs_AB 1) \<and>
      elems h_123 (objs' 0) = elems h_123 (objs_AB 1))"
proof -
  have 1: "(0 :: nat) \<noteq> 1" by simp
  show ?thesis
    using move_transfers_contents [of v_123 h_123 0 1 objs_AB] 1 by blast
qed

text \<open>
  Claim C8: for every valid vector, copy construction either throws \<^verbatim>\<open>bad_alloc\<close> (when the
  allocator refuses \<open>size\<close> elements) or produces a vector whose size and capacity are the
  source's size and whose elements are the source's, index by index; and whatever list of
  mutations the copy then undergoes, the original stays valid with its elements unchanged.
\<close>

theorem copy_ctor_independent:
  assumes v: "valid h other"
  shows "if alloc_limit h < unat (size_m other) then SimpleVector_copy_ctor T h other = Inl bad_alloc
         else (\<exists>h1 cp. SimpleVector_copy_ctor T h other = Inr (h1, cp) \<and>
                 size_m cp = size_m other \<and> capacity_m cp = size_m other \<and>
                 elems h1 cp = elems h other \<and> valid h1 other \<and> elems h1 other = elems h other \<and>
                 (\<forall>ms h2 cp2. mutate_all T h1 cp ms = Inr (h2, cp2) \<longrightarrow>
                    valid h2 other \<and> elems h2 other = elems h other))"
proof (cases "alloc_limit h < unat (size_m other)")
  case True
  show ?thesis
    using SimpleVector_copy_ctor_valid [OF v, of T] unfolding if_P [OF True] by (simp only: True if_True)
next
  case False
  show ?thesis
  proof (cases "raw_ptr_m (data_m other)")
    case None
    obtain h1 cp where c: "SimpleVector_copy_ctor T h other = Inr (h1, cp)"
      "size_m cp = size_m other" "capacity_m cp = size_m other" "elems h1 cp = elems h other"
      using SimpleVector_copy_ctor_valid [OF v, of T 0] unfolding if_not_P [OF False] by blast
    have "\<exists>h1 cp. SimpleVector_copy_ctor T h other = Inr (h1, cp) \<and>
                 size_m cp = size_m other \<and> capacity_m cp = size_m other \<and>
                 elems h1 cp = elems h other \<and> valid h1 other \<and> elems h1 other = elems h other \<and>
                 (\<forall>ms h2 cp2. mutate_all T h1 cp ms = Inr (h2, cp2) \<longrightarrow>
                    valid h2 other \<and> elems h2 other = elems h other)"
      using c null_valid_elems [OF None v] by (intro exI [of _ h1] exI [of _ cp]) simp
    then show ?thesis unfolding if_not_P [OF False] .
  next
    case (Some b)
    have b: "b < next_addr h" using v Some by (simp add: valid_def allocated_def)
    obtain h1 cp where c: "SimpleVector_copy_ctor T h other = Inr (h1, cp)"
      "size_m cp = size_m other" "capacity_m cp = size_m other" "elems h1 cp = elems h other"
      and f1: "frame b h h1" and ne: "raw_ptr_m (data_m cp) \<noteq> Some b"
      using SimpleVector_copy_ctor_valid [OF v, of T b] b unfolding if_not_P [OF False] by blast
    have v1: "valid h1 other \<and> elems h1 other = elems h other"
      using frame_valid_elems [OF Some f1 v] .
    have ap: "apart b h1 cp" using b f1 ne by (simp add: apart_def frame_def)
    have "valid h2 other \<and> elems h2 other = elems h other"
      if m: "mutate_all T h1 cp ms = Inr (h2, cp2)" for ms h2 cp2
    proof -
      have "frame b h1 h2" using mutate_all_keeps [OF m ap] by simp
      then have "frame b h h2" using f1 frame_trans by blast
      then show ?thesis using Some v by (intro frame_valid_elems)
    qed
    then have "\<exists>h1 cp. SimpleVector_copy_ctor T h other = Inr (h1, cp) \<and>
                 size_m cp = size_m other \<and> capacity_m cp = size_m other \<and>
                 elems h1 cp = elems h other \<and> valid h1 other \<and> elems h1 other = elems h other \<and>
                 (\<forall>ms h2 cp2. mutate_all T h1 cp ms = Inr (h2, cp2) \<longrightarrow>
                    valid h2 other \<and> elems h2 other = elems h other)"
      using c v1 by (intro exI [of _ h1] exI [of _ cp]) simp
    then show ?thesis unfolding if_not_P [OF False] .
  qed
qed

theorem copy_ctor_independent_witness:
  "valid h_123 v_123 \<and>
   SimpleVector_copy_ctor T_int h_123 v_123 = Inr (h_copy, v_copy) \<and>
   (\<exists>h2 cp2. mutate_all T_int h_copy v_copy [M_Assign 0 7, M_PushBack 4] = Inr (h2, cp2) \<and>
      elems h2 cp2 = [7, 2, 3, 4] \<and> elems h2 v_123 = elems h_123 v_123)"
proof -
  have 1: "valid h_123 v_123"
    by (simp add: valid_def extent_def allocated_def h_123_def v_123_def)
  have 2: "\<not> alloc_limit h_123 < unat (size_m v_123)"
    by (simp add: h_123_def v_123_def)
  have 3: "SimpleVector_copy_ctor T_int h_123 v_123 = Inr (h_copy, v_copy)"
    by (simp add: SimpleVector_copy_ctor_def SimpleVector_ctor_size_def SimpleVector_default_def
        h_123_def v_123_def h_copy_def v_copy_def T_int_def ev)
  have 4: "\<exists>h2 cp2. mutate_all T_int h_copy v_copy [M_Assign 0 7, M_PushBack 4] = Inr (h2, cp2) \<and>
      elems h2 cp2 = [7, 2, 3, 4]"
    by (simp add: h_copy_def v_copy_def T_int_def elems_def ev subscript_def PushBack_def
        ReallocateAndMoveData_def)
  obtain h1 cp where c: "SimpleVector_copy_ctor T_int h_123 v_123 = Inr (h1, cp)"
    and u: "\<forall>ms h2 cp2. mutate_all T_int h1 cp ms = Inr (h2, cp2) \<longrightarrow>
              valid h2 v_123 \<and> elems h2 v_123 = elems h_123 v_123"
    using copy_ctor_independent [OF 1, of T_int] unfolding if_not_P [OF 2] by blast
  have eq: "h1 = h_copy" "cp = v_copy" using c 3 by simp_all
  obtain h2 cp2 where m: "mutate_all T_int h_copy v_copy [M_Assign 0 7, M_PushBack 4] = Inr (h2, cp2)"
    and e: "elems h2 cp2 = [7, 2, 3, 4]"
    using 4 by blast
  have "elems h2 v_123 = elems h_123 v_123" using u m unfolding eq by blast
  then show ?thesis using 1 3 m e by blast
qed

text \<open>
  Claim C9: move-assigning an \<^verbatim>\<open>ArrayPtr\<close> to itself leaves every object as it was;
  move-assigning from a different \<^verbatim>\<open>ArrayPtr\<close> gives the destination the source's pointer,
  leaves the source holding \<^verbatim>\<open>nullptr\<close>, and changes no third object.
\<close>

theorem ArrayPtr_move_assign_spec:
  "ArrayPtr_move_assign objs this this = objs \<and>
   (this \<noteq> other \<longrightarrow>
      raw_ptr_m (ArrayPtr_move_assign objs this other this) = raw_ptr_m (objs other) \<and>
      raw_ptr_m (ArrayPtr_move_assign objs this other other) = None \<and>
      (\<forall>a. a \<noteq> this \<and> a \<noteq> other \<longrightarrow> ArrayPtr_move_assign objs this other a = objs a))"
  by (simp add: ArrayPtr_move_assign_def Let_def)

theorem ArrayPtr_move_assign_spec_witness:
  "(0 :: nat) \<noteq> 1 \<and>
   raw_ptr_m (ArrayPtr_move_assign ptrs_AB 0 1 0) = Some 21 \<and>
   raw_ptr_m (ArrayPtr_move_assign ptrs_AB 0 1 1) = None \<and>
   ArrayPtr_move_assign ptrs_AB 0 1 2 = ptrs_AB 2 \<and>
   ArrayPtr_move_assign ptrs_AB 0 0 = ptrs_AB"
proof -
  have 1: "(0 :: nat) \<noteq> 1" by simp
  have 2: "raw_ptr_m (ptrs_AB 1) = Some 21" by (simp add: ptrs_AB_def)
  have 3: "(2 :: nat) \<noteq> 0 \<and> (2 :: nat) \<noteq> 1" by simp
  show ?thesis
    using ArrayPtr_move_assign_spec [of ptrs_AB 0 1] ArrayPtr_move_assign_spec [of ptrs_AB 0 0] 1 2 3
    by metis
qed

text \<open>
  Claim C10: on a non-empty vector \<^verbatim>\<open>PopBack\<close> returns, leaving the capacity, the buffer
  and the elements at the indices below \<open>size - 1\<close> unchanged; on a valid vector \<^verbatim>\<open>Erase\<close>
  at a position \<open>p < size\<close> returns, leaving the capacity and the elements at the indices
  below \<open>p\<close> unchanged.
\<close>

theorem PopBack_Erase_frame:
  "(size_m v \<noteq> 0 \<longrightarrow>
      (\<exists>v'. PopBack v = Inr v' \<and> capacity_m v' = capacity_m v \<and> data_m v' = data_m v \<and>
         size_m v' = size_m v - 1 \<and> elems h v' = take (unat (size_m v) - 1) (elems h v))) \<and>
   (valid h v \<and> p < size_m v \<longrightarrow>
      (\<exists>h' v'. Erase T h v p = Inr (h', v', p) \<and> capacity_m v' = capacity_m v \<and>
         size_m v' = size_m v - 1 \<and> take (unat p) (elems h' v') = take (unat p) (elems h v)))"
proof -
  have "elems h (v\<lparr>size_m := size_m v - 1\<rparr>) = take (unat (size_m v) - 1) (elems h v)"
    if "size_m v \<noteq> 0"
    using that by (simp add: elems_def unat_minus_one min_def split: option.splits)
  moreover have "\<exists>h' v'. Erase T h v p = Inr (h', v', p) \<and> capacity_m v' = capacity_m v \<and>
         size_m v' = size_m v - 1 \<and> take (unat p) (elems h' v') = take (unat p) (elems h v)"
    if v: "valid h v" and p: "p < size_m v"
  proof -
    obtain h' where er: "Erase T h v p = Inr (h', v\<lparr>size_m := size_m v - 1\<rparr>, p)"
      and el: "elems h' (v\<lparr>size_m := size_m v - 1\<rparr>) =
                 take (unat p) (elems h v) @ drop (unat p + 1) (elems h v)"
      using Erase_valid [OF v p, of T] by blast
    have len: "length (elems h v) = unat (size_m v)"
      using v by (cases rule: valid_cases) (simp_all add: elems_def)
    have "unat p < unat (size_m v)" using p by (simp add: word_less_nat_alt)
    then have "take (unat p) (elems h' (v\<lparr>size_m := size_m v - 1\<rparr>)) = take (unat p) (elems h v)"
      using len by (simp add: el)
    with er show ?thesis
      by (intro exI [of _ h'] exI [of _ "v\<lparr>size_m := size_m v - 1\<rparr>"]) simp
  qed
  ultimately show ?thesis by (simp add: PopBack_def)
qed

theorem PopBack_Erase_frame_witness:
  "size_m v_123 \<noteq> 0 \<and> valid h_123 v_123 \<and> (1 :: size_t) < size_m v_123 \<and>
   (\<exists>v'. PopBack v_123 = Inr v' \<and> capacity_m v' = capacity_m v_123 \<and> data_m v' = data_m v_123 \<and>
      size_m v' = size_m v_123 - 1 \<and>
      elems h_123 v' = take (unat (size_m v_123) - 1) (elems h_123 v_123)) \<and>
   (\<exists>h' v'. Erase T_int h_123 v_123 1 = Inr (h', v', 1) \<and> capacity_m v' = capacity_m v_123 \<and>
      size_m v' = size_m v_123 - 1 \<and>
      take (unat (1 :: size_t)) (elems h' v') = take (unat (1 :: size_t)) (elems h_123 v_123))"
proof -
  have 1: "size_m v_123 \<noteq> 0" by (simp add: v_123_def)
  have 2: "valid h_123 v_123"
    by (simp add: valid_def extent_def allocated_def h_123_def v_123_def)
  have 3: "(1 :: size_t) < size_m v_123" by (simp add: v_123_def)
  show ?thesis
    using PopBack_Erase_frame [of v_123 h_123 1 T_int] 1 2 3 by blast
qed

section \<open>Further properties of the operations\<close>

text \<open>
  The round trip of \<^verbatim>\<open>Insert\<close> and \<^verbatim>\<open>Erase\<close> on the vectors that satisfy the invariant:
  for every valid vector with fewer than \<open>SIZE_MAX\<close> elements, every value and every
  position \<open>p \<le> size\<close>, \<^verbatim>\<open>Insert\<close> at \<open>p\<close> either throws \<^verbatim>\<open>bad_alloc\<close> (only when the
  vector is full and the allocator refuses the grown capacity) or returns the iterator at
  \<open>p\<close> with the size one larger, and \<^verbatim>\<open>Erase\<close> at that iterator then returns and yields
  a vector whose sequence of logical elements is the one before the \<^verbatim>\<open>Insert\<close>.
\<close>

theorem Insert_then_Erase_restores:
  assumes "valid h v" and "p \<le> size_m v" and "size_m v \<noteq> SIZE_MAX"
  shows "case Insert T h v p x of
           Inl e \<Rightarrow> e = bad_alloc \<and> size_m v = capacity_m v \<and>
             alloc_limit h < unat (if capacity_m v \<noteq> 0 then max (size_m v + 1) (2 * capacity_m v) else 1)
         | Inr (h1, v1, pos) \<Rightarrow>
             pos = p \<and> size_m v1 = size_m v + 1 \<and>
             (\<exists>h2 v2. Erase T h1 v1 pos = Inr (h2, v2, pos) \<and> size_m v2 = size_m v \<and>
                elems h2 v2 = elems h v)"
proof -
  have nz: "size_m v + 1 \<noteq> 0"
    using assms(3) max_word_wrap [of "size_m v"] by (auto simp: SIZE_MAX_def)
  let ?full = "size_m v = capacity_m v \<and>
    alloc_limit h < unat (if capacity_m v \<noteq> 0 then max (size_m v + 1) (2 * capacity_m v) else 1)"
  note iv = Insert_valid [OF assms(1,2) nz, of T x]
  show ?thesis
  proof (cases ?full)
    case True
    have "Insert T h v p x = Inl bad_alloc"
      using iv unfolding if_P [OF True] .
    then show ?thesis using True by simp
  next
    case False
    obtain h1 v1 where ins: "Insert T h v p x = Inr (h1, v1, p)" and v1: "valid h1 v1"
      and s1: "size_m v1 = size_m v + 1"
      and e1: "elems h1 v1 = take (unat p) (elems h v) @ [x] @ drop (unat p) (elems h v)"
      using iv unfolding if_not_P [OF False] by blast
    have ps: "unat p \<le> unat (size_m v)" using assms(2) by (simp add: word_le_nat_alt)
    have "unat (size_m v) < unat (size_m v + 1)" using nz by (simp add: unat_succ)
    then have lt: "p < size_m v1" using ps s1 by (simp add: word_less_nat_alt)
    obtain h2 where er: "Erase T h1 v1 p = Inr (h2, v1\<lparr>size_m := size_m v1 - 1\<rparr>, p)"
      and e2: "elems h2 (v1\<lparr>size_m := size_m v1 - 1\<rparr>) =
                 take (unat p) (elems h1 v1) @ drop (unat p + 1) (elems h1 v1)"
      using Erase_valid [OF v1 lt, of T] by blast
    have len: "length (elems h v) = unat (size_m v)"
      using assms(1) by (cases rule: valid_cases) (simp_all add: elems_def)
    have "take (unat p) (elems h1 v1) @ drop (unat p + 1) (elems h1 v1) = elems h v"
      using ps len by (simp add: e1)
    then show ?thesis using ins er e2 s1 by simp
  qed
qed

theorem Insert_then_Erase_restores_witness:
  "valid h_123 v_123 \<and> (1 :: size_t) \<le> size_m v_123 \<and> size_m v_123 \<noteq> SIZE_MAX \<and>
   (case Insert T_int h_123 v_123 1 9 of
      Inl e \<Rightarrow> e = bad_alloc \<and> size_m v_123 = capacity_m v_123 \<and>
        alloc_limit h_123 <
          unat (if capacity_m v_123 \<noteq> 0 then max (size_m v_123 + 1) (2 * capacity_m v_123) else 1)
    | Inr (h1, v1, pos) \<Rightarrow>
        pos = 1 \<and> size_m v1 = size_m v_123 + 1 \<and>
        (\<exists>h2 v2. Erase T_int h1 v1 pos = Inr (h2, v2, pos) \<and> size_m v2 = size_m v_123 \<and>
           elems h2 v2 = elems h_123 v_123))"
proof -
  have 1: "valid h_123 v_123"
    by (simp add: valid_def extent_def allocated_def h_123_def v_123_def)
  have 2: "(1 :: size_t) \<le> size_m v_123" by (simp add: v_123_def)
  have 3: "size_m v_123 \<noteq> SIZE_MAX" by (simp add: v_123_def SIZE_MAX_def)
  show ?thesis by (intro conjI 1 2 3 Insert_then_Erase_restores [OF 1 2 3])
qed

text \<open>
  \<^verbatim>\<open>Resize\<close> where the \<^verbatim>\<open>int\<close> holds the new capacity: on a valid vector, when growth
  is needed only with \<open>max n (2 * capacity)\<close> below \<open>2 ^ 31\<close>, \<^verbatim>\<open>Resize(n)\<close> either throws
  \<^verbatim>\<open>bad_alloc\<close> (growth is needed and the allocator refuses) or returns a valid vector of
  size \<open>n\<close>, whose capacity is \<open>max n (2 * capacity)\<close> after growth and unchanged otherwise,
  and whose elements are the first \<open>n\<close> old ones followed by value-initialised ones.
\<close>

theorem Resize_below_int_max:
  assumes v: "valid h v"
    and small: "capacity_m v < n \<Longrightarrow> max (unat n) (2 * unat (capacity_m v)) < 2 ^ 31"
  shows "if capacity_m v < n \<and> alloc_limit h < max (unat n) (2 * unat (capacity_m v))
         then Resize T h v n = Inl bad_alloc
         else (\<exists>h' v'. Resize T h v n = Inr (h', v') \<and> valid h' v' \<and> size_m v' = n \<and>
                 unat (capacity_m v') =
                   (if capacity_m v < n then max (unat n) (2 * unat (capacity_m v))
                    else unat (capacity_m v)) \<and>
                 elems h' v' =
                   take (unat n) (elems h v) @ replicate (unat n - unat (size_m v)) (value_init T))"
  using v small by (rule Resize_valid)

theorem Resize_below_int_max_witness:
  "valid h_123 v_123 \<and> capacity_m v_123 < (5 :: size_t) \<and>
   max (unat (5 :: size_t)) (2 * unat (capacity_m v_123)) < 2 ^ 31 \<and>
   (\<exists>h' v'. Resize T_int h_123 v_123 5 = Inr (h', v') \<and> valid h' v' \<and> size_m v' = 5 \<and>
      unat (capacity_m v') = 6 \<and> elems h' v' = elems h_123 v_123 @ [0, 0])"
proof -
  have 1: "valid h_123 v_123"
    by (simp add: valid_def extent_def allocated_def h_123_def v_123_def)
  have 2: "capacity_m v_123 < (5 :: size_t)" by (simp add: v_123_def)
  have 3: "max (unat (5 :: size_t)) (2 * unat (capacity_m v_123)) < 2 ^ 31" by (simp add: v_123_def)
  have 4: "\<not> (capacity_m v_123 < 5 \<and> alloc_limit h_123 < max (unat (5 :: size_t)) (2 * unat (capacity_m v_123)))"
    by (simp add: v_123_def h_123_def)
  have 5: "length (elems h_123 v_123) = 3" "unat (size_m v_123) = 3" "value_init T_int = 0"
    "max (unat (5 :: size_t)) (2 * unat (capacity_m v_123)) = 6"
    by (simp_all add: elems_def h_123_def v_123_def T_int_def)
  have "replicate 2 (0 :: int) = [0, 0]" by (simp add: numeral_2_eq_2)
  then have 6: "replicate (unat (5 :: size_t) - 3) (0 :: int) = [0, 0]" by simp
  obtain h' v' where r: "Resize T_int h_123 v_123 5 = Inr (h', v')" "valid h' v'" "size_m v' = 5"
    and c: "unat (capacity_m v') =
             (if capacity_m v_123 < 5 then max (unat (5 :: size_t)) (2 * unat (capacity_m v_123))
              else unat (capacity_m v_123))"
    and e: "elems h' v' = take (unat (5 :: size_t)) (elems h_123 v_123) @
             replicate (unat (5 :: size_t) - unat (size_m v_123)) (value_init T_int)"
    using Resize_below_int_max [OF 1 3, of T_int] unfolding if_not_P [OF 4] by blast
  have c': "unat (capacity_m v') = 6" using c 2 5 by simp
  have e': "elems h' v' = elems h_123 v_123 @ [0, 0]" using e 5 6 by simp
  have "\<exists>h' v'. Resize T_int h_123 v_123 5 = Inr (h', v') \<and> valid h' v' \<and> size_m v' = 5 \<and>
      unat (capacity_m v') = 6 \<and> elems h' v' = elems h_123 v_123 @ [0, 0]"
    using r c' e' by (intro exI [of _ h'] exI [of _ v']) simp
  then show ?thesis using 1 2 3 by (simp only: simp_thms)
qed

text \<open>
  \<^verbatim>\<open>PushBack\<close> on a valid vector with fewer than \<open>SIZE_MAX\<close> elements either throws
  \<^verbatim>\<open>bad_alloc\<close> (the vector is full and the allocator refuses the grown capacity) or
  returns a valid vector with the value appended, the size one larger, and the capacity
  unchanged unless the vector was full, when it is \<open>max (size + 1) (2 * capacity)\<close>, or 1
  from capacity 0.
\<close>

theorem PushBack_appends:
  assumes v: "valid h v" and nm: "size_m v \<noteq> SIZE_MAX"
  shows "if size_m v = capacity_m v \<and>
            alloc_limit h < unat (if capacity_m v \<noteq> 0 then max (size_m v + 1) (2 * capacity_m v) else 1)
         then PushBack T h v x = Inl bad_alloc
         else (\<exists>h' v'. PushBack T h v x = Inr (h', v') \<and> valid h' v' \<and>
                 size_m v' = size_m v + 1 \<and> elems h' v' = elems h v @ [x] \<and>
                 capacity_m v' =
                   (if size_m v = capacity_m v
                    then (if capacity_m v \<noteq> 0 then max (size_m v + 1) (2 * capacity_m v) else 1)
                    else capacity_m v))"
  using v nm by (rule PushBack_valid)

theorem PushBack_appends_witness:
  "valid h_123 v_123 \<and> size_m v_123 \<noteq> SIZE_MAX \<and>
   (\<exists>h' v'. PushBack T_int h_123 v_123 4 = Inr (h', v') \<and> valid h' v' \<and>
      size_m v' = size_m v_123 + 1 \<and> elems h' v' = elems h_123 v_123 @ [4] \<and> capacity_m v' = 6)"
proof -
  have 1: "valid h_123 v_123"
    by (simp add: valid_def extent_def allocated_def h_123_def v_123_def)
  have 2: "size_m v_123 \<noteq> SIZE_MAX" by (simp add: v_123_def SIZE_MAX_def)
  have 3: "\<not> (size_m v_123 = capacity_m v_123 \<and>
            alloc_limit h_123 < unat (if capacity_m v_123 \<noteq> 0 then max (size_m v_123 + 1) (2 * capacity_m v_123) else 1))"
    by (simp add: v_123_def h_123_def)
  have 4: "(if size_m v_123 = capacity_m v_123
            then (if capacity_m v_123 \<noteq> 0 then max (size_m v_123 + 1) (2 * capacity_m v_123) else 1)
            else capacity_m v_123) = 6"
    by (simp add: v_123_def)
  show ?thesis
    using PushBack_appends [OF 1 2, of T_int 4] 1 2 unfolding if_not_P [OF 3] 4 by (simp only: simp_thms)
qed

text \<open>
  What \<^verbatim>\<open>operator==\<close> decides: on valid vectors with \<open>lhs\<close> no longer than \<open>rhs\<close> it
  returns whether the elements of \<open>lhs\<close> are the first \<open>size lhs\<close> elements of \<open>rhs\<close>.
\<close>

theorem operator_eq_compares_prefix:
  assumes l: "valid h lhs" and r: "valid h rhs" and le: "size_m lhs \<le> size_m rhs"
  shows "operator_eq h lhs rhs = Inr (elems h lhs = take (unat (size_m lhs)) (elems h rhs))"
proof -
  have le': "unat (size_m lhs) \<le> unat (size_m rhs)" using le by (simp add: word_le_nat_alt)
  from l show ?thesis
  proof (cases rule: valid_cases)
    case null
    then show ?thesis by (simp add: operator_eq_def elems_def)
  next
    case lb: (block a xs)
    from r show ?thesis
    proof (cases rule: valid_cases)
      case null
      then have "size_m lhs = 0" using le by simp
      then show ?thesis using null lb by (simp add: operator_eq_def elems_def)
    next
      case rb: (block b ys)
      have "equal h (Some a) 0 (unat (size_m lhs)) (Some b) 0 =
            Inr (take (unat (size_m lhs)) (drop 0 xs) = take (unat (size_m lhs)) (drop 0 ys))"
        using lb(2) rb(2) by (rule equal_block) (use lb rb le' in simp_all)
      then show ?thesis
        using lb(1,2) rb(1,2) le' by (simp add: operator_eq_def begin_it_def Get_def elems_def min_def)
    qed
  qed
qed

theorem operator_eq_compares_prefix_witness:
  "valid h_pair v_12 \<and> valid h_pair w_123 \<and> size_m v_12 \<le> size_m w_123 \<and>
   operator_eq h_pair v_12 w_123 =
     Inr (elems h_pair v_12 = take (unat (size_m v_12)) (elems h_pair w_123))"
proof -
  have 1: "valid h_pair v_12"
    by (simp add: valid_def extent_def allocated_def h_pair_def v_12_def)
  have 2: "valid h_pair w_123"
    by (simp add: valid_def extent_def allocated_def h_pair_def w_123_def)
  have 3: "size_m v_12 \<le> size_m w_123" by (simp add: v_12_def w_123_def)
  show ?thesis by (intro conjI 1 2 3 operator_eq_compares_prefix [OF 1 2 3])
qed

text \<open>
  The invariant of the data model is established by every constructor but the
  capacity-reservation one: the default constructor, the constructors from a size, from a
  size and a value and from an initializer list (each throws \<^verbatim>\<open>bad_alloc\<close> when the
  allocator refuses the elements, and otherwise returns a valid vector with the elements
  asked for), and the move constructor, which keeps it for both vectors.
\<close>

theorem constructors_establish_valid:
  "valid h SimpleVector_default \<and> elems h SimpleVector_default = [] \<and>
   (if alloc_limit h < unat n then SimpleVector_ctor_size T h n = Inl bad_alloc
    else (\<exists>h' v'. SimpleVector_ctor_size T h n = Inr (h', v') \<and> valid h' v' \<and>
            size_m v' = n \<and> capacity_m v' = n \<and> elems h' v' = replicate (unat n) (value_init T))) \<and>
   (if alloc_limit h < unat n then SimpleVector_ctor_value T h n x = Inl bad_alloc
    else (\<exists>h' v'. SimpleVector_ctor_value T h n x = Inr (h', v') \<and> valid h' v' \<and>
            size_m v' = n \<and> capacity_m v' = n \<and> elems h' v' = replicate (unat n) x)) \<and>
   (length init < 2 ^ 64 \<longrightarrow>
      (if alloc_limit h < length init then SimpleVector_ctor_init T h init = Inl bad_alloc
       else (\<exists>h' v'. SimpleVector_ctor_init T h init = Inr (h', v') \<and> valid h' v' \<and>
               unat (size_m v') = length init \<and> capacity_m v' = size_m v' \<and> elems h' v' = init))) \<and>
   (valid h other \<longrightarrow> valid h (fst (SimpleVector_move_ctor other)) \<and>
      valid h (snd (SimpleVector_move_ctor other)))"
proof -
  have 1: "valid h SimpleVector_default \<and> elems h SimpleVector_default = []"
    by (simp add: valid_def extent_def allocated_def SimpleVector_default_def elems_def)
  have 5: "valid h other \<longrightarrow> valid h (fst (SimpleVector_move_ctor other)) \<and>
      valid h (snd (SimpleVector_move_ctor other))"
    by (simp add: SimpleVector_move_ctor_def ArrayPtr_move_ctor_def valid_def extent_def allocated_def)
  have 2: "if alloc_limit h < unat n then SimpleVector_ctor_size T h n = Inl bad_alloc
    else (\<exists>h' v'. SimpleVector_ctor_size T h n = Inr (h', v') \<and> valid h' v' \<and>
            size_m v' = n \<and> capacity_m v' = n \<and> elems h' v' = replicate (unat n) (value_init T))"
    unfolding SimpleVector_ctor_size_value by (rule SimpleVector_ctor_value_valid)
  have 3: "if alloc_limit h < unat n then SimpleVector_ctor_value T h n x = Inl bad_alloc
    else (\<exists>h' v'. SimpleVector_ctor_value T h n x = Inr (h', v') \<and> valid h' v' \<and>
            size_m v' = n \<and> capacity_m v' = n \<and> elems h' v' = replicate (unat n) x)"
    by (rule SimpleVector_ctor_value_valid)
  have 4: "length init < 2 ^ 64 \<longrightarrow>
      (if alloc_limit h < length init then SimpleVector_ctor_init T h init = Inl bad_alloc
       else (\<exists>h' v'. SimpleVector_ctor_init T h init = Inr (h', v') \<and> valid h' v' \<and>
               unat (size_m v') = length init \<and> capacity_m v' = size_m v' \<and> elems h' v' = init))"
    by (rule impI) (rule SimpleVector_ctor_init_valid)
  show ?thesis by (intro conjI 1 [THEN conjunct1] 1 [THEN conjunct2] 2 3 4 5)
qed

theorem constructors_establish_valid_witness:
  "length [1, 2, 3 :: int] < 2 ^ 64 \<and> valid h_123 v_123 \<and>
   (\<exists>h' v'. SimpleVector_ctor_init T_int h_empty [1, 2, 3] = Inr (h', v') \<and> valid h' v' \<and>
      unat (size_m v') = length [1, 2, 3 :: int] \<and> capacity_m v' = size_m v' \<and>
      elems h' v' = [1, 2, 3]) \<and>
   valid h_123 (fst (SimpleVector_move_ctor v_123)) \<and> valid h_123 (snd (SimpleVector_move_ctor v_123))"
proof -
  have 1: "length [1, 2, 3 :: int] < 2 ^ 64" by simp
  have 2: "valid h_123 v_123"
    by (simp add: valid_def extent_def allocated_def h_123_def v_123_def)
  have 3: "\<not> alloc_limit h_empty < length [1, 2, 3 :: int]" by (simp add: h_empty_def)
  note c = constructors_establish_valid [of h_empty 0 T_int 0 "[1, 2, 3]" v_123]
  have a: "\<exists>h' v'. SimpleVector_ctor_init T_int h_empty [1, 2, 3] = Inr (h', v') \<and> valid h' v' \<and>
      unat (size_m v') = length [1, 2, 3 :: int] \<and> capacity_m v' = size_m v' \<and>
      elems h' v' = [1, 2, 3]"
    using c 1 unfolding if_not_P [OF 3] by blast
  have b: "valid h_123 (fst (SimpleVector_move_ctor v_123)) \<and> valid h_123 (snd (SimpleVector_move_ctor v_123))"
    using constructors_establish_valid [of h_123 0 T_int 0 "[]" v_123] 2 by blast
  show ?thesis using 1 2 a b by (simp only: simp_thms)
qed

text \<open>
  The invariant is kept by every mutation that returns: \<^verbatim>\<open>PushBack\<close>, \<^verbatim>\<open>PopBack\<close>,
  \<^verbatim>\<open>Insert\<close>, \<^verbatim>\<open>Erase\<close>, \<^verbatim>\<open>Reserve\<close>, \<^verbatim>\<open>Clear\<close>, an assignment through \<^verbatim>\<open>operator[]\<close>,
  and \<^verbatim>\<open>Resize\<close> where the \<^verbatim>\<open>int\<close> holds the new capacity.
\<close>

theorem mutate_preserves_valid:
  assumes v: "valid h v" and m: "mutate T h v m = Inr (h', v')"
    and small: "\<And>n. m = M_Resize n \<Longrightarrow> capacity_m v < n \<Longrightarrow>
                  max (unat n) (2 * unat (capacity_m v)) < 2 ^ 31"
  shows "valid h' v'"
proof (cases m)
  case (M_PushBack x)
  then have pb: "PushBack T h v x = Inr (h', v')" using m by simp
  then have "size_m v \<noteq> SIZE_MAX" using PushBack_SIZE_MAX [OF v, of T x] by auto
  from PushBack_valid [OF v this, of T x] pb show ?thesis by (auto split: if_splits)
next
  case M_PopBack
  then have s: "size_m v \<noteq> 0" and v': "v' = v\<lparr>size_m := size_m v - 1\<rparr>" and h': "h' = h"
    using m by (auto simp: PopBack_def bind_eq_Inr split: if_splits)
  have "size_m v - 1 \<le> size_m v" using s by unat_arith
  then show ?thesis using v unfolding v' h' by (auto simp: valid_def extent_def allocated_def)
next
  case (M_Insert p x)
  then obtain r where ins: "Insert T h v p x = Inr (h', v', r)"
    using m by (auto simp: bind_eq_Inr)
  then have p: "p \<le> size_m v" by (auto simp: Insert_def split: if_splits)
  have "size_m v \<noteq> SIZE_MAX" using Insert_SIZE_MAX [OF v, of T p x] ins by auto
  then have nz: "size_m v + 1 \<noteq> 0"
    using max_word_wrap [of "size_m v"] by (auto simp: SIZE_MAX_def)
  from Insert_valid [OF v p nz, of T x] ins show ?thesis by (auto split: if_splits)
next
  case (M_Erase p)
  then obtain r where er: "Erase T h v p = Inr (h', v', r)"
    using m by (auto simp: bind_eq_Inr)
  then have p: "p < size_m v" by (auto simp: Erase_def split: if_splits)
  from Erase_valid [OF v p, of T] er show ?thesis by auto
next
  case (M_Resize n)
  then have rs: "Resize T h v n = Inr (h', v')" using m by simp
  have "capacity_m v < n \<Longrightarrow> max (unat n) (2 * unat (capacity_m v)) < 2 ^ 31"
    using small M_Resize by simp
  from Resize_valid [OF v this, of T] rs show ?thesis by (auto split: if_splits)
next
  case (M_Reserve n)
  then have rs: "Reserve T h v n = Inr (h', v')" using m by simp
  from Reserve_valid [OF v, of n T] rs show ?thesis by (auto split: if_splits)
next
  case M_Clear
  then have "h' = h" "v' = v\<lparr>size_m := 0\<rparr>" using m by (auto simp: Clear_def)
  then show ?thesis using v by (simp add: valid_def extent_def allocated_def)
next
  case (M_Assign i x)
  then have "bind (store h (raw_ptr_m (data_m v)) (unat i) x) (\<lambda>h'. Inr (h', v)) = Inr (h', v')"
    using m by (simp add: subscript_def)
  then have st: "store h (raw_ptr_m (data_m v)) (unat i) x = Inr h'" and v': "v' = v"
    by (auto simp: bind_eq_Inr)
  show ?thesis using store_valid [OF v st] v' by simp
qed

theorem mutate_preserves_valid_witness:
  "valid h_123 v_123 \<and> mutate T_int h_123 v_123 (M_Erase 1) = Inr (h_13, v_13) \<and>
   valid h_13 v_13 \<and> elems h_13 v_13 = [1, 3]"
proof -
  have 1: "valid h_123 v_123"
    by (simp add: valid_def extent_def allocated_def h_123_def v_123_def)
  have 2: "mutate T_int h_123 v_123 (M_Erase 1) = Inr (h_13, v_13)"
    by (simp add: Erase_def h_123_def v_123_def h_13_def v_13_def T_int_def ev)
  have 3: "elems h_13 v_13 = [1, 3]" by (simp add: elems_def h_13_def v_13_def)
  have "valid h_13 v_13" using 1 2 by (rule mutate_preserves_valid) simp_all
  then show ?thesis using 1 2 3 by (simp only: simp_thms)
qed

end
